theory Spec2Isabelle
  imports Main
begin

section \<open>Strings\<close>

text \<open>
  Python strings are modelled as lists of the code points 0..255. On these,
  \<open>str.lower\<close> maps A..Z and the Latin-1 capitals (192..222 without 215) to the
  code point 32 higher, and \<open>str.strip\<close> removes the code points for which
  \<open>str.isspace\<close> holds (9..13, 28..32, 133, 160) from both ends. Code points
  beyond 255 are outside the model.
\<close>

definition lower_char :: "char \<Rightarrow> char" where
  "lower_char ch =
     (let n = (of_char ch :: nat)
      in if (65 \<le> n \<and> n \<le> 90) \<or> (192 \<le> n \<and> n \<le> 222 \<and> n \<noteq> 215)
         then char_of (n + 32) else ch)"

definition lower :: "string \<Rightarrow> string" where
  "lower s = map lower_char s"

definition is_space :: "char \<Rightarrow> bool" where
  "is_space ch =
     (let n = (of_char ch :: nat)
      in (9 \<le> n \<and> n \<le> 13) \<or> (28 \<le> n \<and> n \<le> 32) \<or> n = 133 \<or> n = 160)"

definition strip :: "string \<Rightarrow> string" where
  "strip s = rev (dropWhile is_space (rev (dropWhile is_space s)))"

text \<open>\<open>s.split(sep)\<close> for a one-character separator: never an empty list.\<close>

fun str_split :: "char \<Rightarrow> string \<Rightarrow> string list" where
  "str_split sep [] = [[]]"
| "str_split sep (ch # s) =
     (if ch = sep then [] # str_split sep s
      else (case str_split sep s of
              [] \<Rightarrow> [[ch]]
            | w # ws \<Rightarrow> (ch # w) # ws))"

section \<open>The provider: regions, resources, API calls\<close>

text \<open>
  The program talks to the cloud provider through boto3 clients. The provider is the
  environment of the program: a state per region and, for every call, whether it
  raises. An exception is represented by its message, which is all the program reads
  of it (\<open>str(e)\<close>).
\<close>

type_synonym exn = string

datatype api_call =
    CreateClient string string
  | DescribeInstances string "string list"
  | DescribeInstanceAttribute string string string
  | DescribeTags string string string
  | StopInstances string "string list"
  | DescribeAutoScalingGroups string nat
  | DescribeTagsAutoScaling string string string
  | UpdateAutoScalingGroup string string int int int

record tag =
  tag_Key :: string
  tag_Value :: "string option"

record attribute_value =
  attr_Value :: "bool option"

record instance_attribute =
  DisableApiStop :: "attribute_value option"

record tags_response =
  Tags :: "tag list option"

record ec2_instance =
  InstanceId :: string
  InstanceType :: "string option"

record asg =
  AutoScalingGroupName :: string
  MinSize :: int
  MaxSize :: int
  DesiredCapacity :: int

record instance_info =
  state_name :: string
  instance_type :: "string option"

record group_info =
  min_size :: int
  max_size :: int
  desired_capacity :: int

record region_state =
  reservations :: "string list list"
  instances :: "string \<rightharpoonup> instance_info"
  api_stop :: "string \<Rightarrow> instance_attribute"
  instance_tags :: "string \<Rightarrow> tag list"
  asg_pages :: "string list list"
  groups :: "string \<rightharpoonup> group_info"
  group_tags :: "string \<Rightarrow> tag list"

text \<open>
  \<open>environ\<close> is \<open>os.environ\<close>; \<open>fault\<close> says which calls raise, and with what
  message; \<open>calls\<close> is the log of the calls issued so far, in order, whether they
  succeeded or not.
\<close>

record cloud =
  environ :: "string \<rightharpoonup> string"
  regions :: "string \<Rightarrow> region_state"
  fault :: "api_call \<Rightarrow> exn option"
  calls :: "api_call list"

datatype client = Client string string

section \<open>Computations that may raise\<close>

text \<open>
  A Python block is a function from the state to an outcome and the new state; the
  outcome is \<open>Inl e\<close> when the block raises \<open>e\<close>. \<open>io_try m h\<close> is
  \<open>try: m except Exception as e: h e\<close>.
\<close>

type_synonym ('s, 'a) io = "'s \<Rightarrow> (exn + 'a) \<times> 's"

definition io_return :: "'a \<Rightarrow> ('s, 'a) io" where
  "io_return x = (\<lambda>s. (Inr x, s))"

definition io_bind :: "('s, 'a) io \<Rightarrow> ('a \<Rightarrow> ('s, 'b) io) \<Rightarrow> ('s, 'b) io" where
  "io_bind m f = (\<lambda>s. case m s of (Inl e, s') \<Rightarrow> (Inl e, s') | (Inr x, s') \<Rightarrow> f x s')"

definition io_try :: "('s, 'a) io \<Rightarrow> (exn \<Rightarrow> ('s, 'a) io) \<Rightarrow> ('s, 'a) io" where
  "io_try m h = (\<lambda>s. case m s of (Inl e, s') \<Rightarrow> h e s' | (Inr x, s') \<Rightarrow> (Inr x, s'))"

fun for_each :: "'a list \<Rightarrow> ('a \<Rightarrow> ('s, unit) io) \<Rightarrow> ('s, unit) io" where
  "for_each [] body = io_return ()"
| "for_each (x # xs) body = io_bind (body x) (\<lambda>_. for_each xs body)"

text \<open>
  A local variable that the block mutates (\<open>stopped_instances\<close>, \<open>region_results\<close>,
  \<open>aggregate_results\<close>) is a component of the state, so that it keeps what was
  appended before an exception. \<open>io_lift\<close> runs a computation on the cloud beside the
  local, \<open>io_modify\<close> updates the local, and \<open>run_local init m\<close> runs \<open>m\<close> with
  the local set to \<open>init\<close> and returns the local's final value.
\<close>

definition io_lift :: "(cloud, 'a) io \<Rightarrow> ('l \<times> cloud, 'a) io" where
  "io_lift m = (\<lambda>(l, c). case m c of (r, c') \<Rightarrow> (r, (l, c')))"

definition io_modify :: "('l \<Rightarrow> 'l) \<Rightarrow> ('l \<times> cloud, unit) io" where
  "io_modify f = (\<lambda>(l, c). (Inr (), (f l, c)))"

definition run_local :: "'l \<Rightarrow> ('l \<times> cloud, unit) io \<Rightarrow> (cloud, 'l) io" where
  "run_local init m =
     (\<lambda>c. case m (init, c) of
             (Inl e, (l, c')) \<Rightarrow> (Inl e, c')
           | (Inr _, (l, c')) \<Rightarrow> (Inr l, c'))"

section \<open>The boto3 calls the program makes\<close>

text \<open>
  Every call is logged, then raises if the provider says so, and otherwise has its
  effect and returns its response.
\<close>

definition api :: "api_call \<Rightarrow> (cloud \<Rightarrow> 'a \<times> cloud) \<Rightarrow> (cloud, 'a) io" where
  "api call effect =
     (\<lambda>c. let c1 = c\<lparr>calls := calls c @ [call]\<rparr>
          in (case fault c1 call of
                Some e \<Rightarrow> (Inl e, c1)
              | None \<Rightarrow> (case effect c1 of (x, c2) \<Rightarrow> (Inr x, c2))))"

definition boto3_client :: "string \<Rightarrow> string \<Rightarrow> (cloud, client) io" where
  "boto3_client service region =
     api (CreateClient service region) (\<lambda>c. (Client service region, c))"

fun client_region :: "client \<Rightarrow> string" where
  "client_region (Client service region) = region"

text \<open>
  \<open>describe_instances\<close> with the filter \<open>instance-state-name\<close>: the reservations of
  the region, each with its instances whose state is one of the given names.
\<close>

definition listed_instance :: "region_state \<Rightarrow> string list \<Rightarrow> string \<Rightarrow> ec2_instance option" where
  "listed_instance rs state_names i =
     (case instances rs i of
        None \<Rightarrow> None
      | Some info \<Rightarrow>
          if state_name info \<in> set state_names
          then Some \<lparr>InstanceId = i, InstanceType = instance_type info\<rparr>
          else None)"

definition describe_instances :: "client \<Rightarrow> string list \<Rightarrow> (cloud, ec2_instance list list) io" where
  "describe_instances ec2 state_names =
     api (DescribeInstances (client_region ec2) state_names)
       (\<lambda>c. (map (List.map_filter (listed_instance (regions c (client_region ec2)) state_names))
                  (reservations (regions c (client_region ec2))), c))"

definition describe_instance_attribute ::
  "client \<Rightarrow> string \<Rightarrow> string \<Rightarrow> (cloud, instance_attribute) io" where
  "describe_instance_attribute ec2 instance_id attribute =
     api (DescribeInstanceAttribute (client_region ec2) instance_id attribute)
       (\<lambda>c. (api_stop (regions c (client_region ec2)) instance_id, c))"

text \<open>\<open>describe_tags\<close> with the filters \<open>resource-id\<close> and \<open>key\<close>.\<close>

definition describe_tags :: "client \<Rightarrow> string \<Rightarrow> string \<Rightarrow> (cloud, tags_response) io" where
  "describe_tags ec2 resource_id key =
     api (DescribeTags (client_region ec2) resource_id key)
       (\<lambda>c. (\<lparr>Tags = Some (filter (\<lambda>t. tag_Key t = key)
                              (instance_tags (regions c (client_region ec2)) resource_id))\<rparr>, c))"

text \<open>A stop that succeeds takes the instances out of the state \<open>running\<close>.\<close>

definition stop_instance_info :: "instance_info \<Rightarrow> instance_info" where
  "stop_instance_info info = info\<lparr>state_name := ''stopping''\<rparr>"

definition stop_effect :: "string \<Rightarrow> string list \<Rightarrow> cloud \<Rightarrow> cloud" where
  "stop_effect r instance_ids c =
     c\<lparr>regions := (regions c)(r := (regions c r)\<lparr>instances :=
          (\<lambda>i. if i \<in> set instance_ids
               then map_option stop_instance_info (instances (regions c r) i)
               else instances (regions c r) i)\<rparr>)\<rparr>"

definition stop_instances :: "client \<Rightarrow> string list \<Rightarrow> (cloud, unit) io" where
  "stop_instances ec2 instance_ids =
     api (StopInstances (client_region ec2) instance_ids)
       (\<lambda>c. ((), stop_effect (client_region ec2) instance_ids c))"

text \<open>
  The paginator of \<open>describe_auto_scaling_groups\<close>: \<open>paginate\<close> makes no call by
  itself; each page is fetched, by a call of its own, when the loop reaches it, and
  shows the groups as they are at that moment.
\<close>

definition paginate :: "client \<Rightarrow> (cloud, nat list) io" where
  "paginate autoscaling = (\<lambda>c. (Inr [0 ..< length (asg_pages (regions c (client_region autoscaling)))], c))"

definition listed_group :: "region_state \<Rightarrow> string \<Rightarrow> asg option" where
  "listed_group rs n =
     (case groups rs n of
        None \<Rightarrow> None
      | Some g \<Rightarrow> Some \<lparr>AutoScalingGroupName = n, MinSize = min_size g,
                       MaxSize = max_size g, DesiredCapacity = desired_capacity g\<rparr>)"

definition next_page :: "client \<Rightarrow> nat \<Rightarrow> (cloud, asg list) io" where
  "next_page autoscaling k =
     api (DescribeAutoScalingGroups (client_region autoscaling) k)
       (\<lambda>c. (List.map_filter (listed_group (regions c (client_region autoscaling)))
                (asg_pages (regions c (client_region autoscaling)) ! k), c))"

definition describe_tags_autoscaling :: "client \<Rightarrow> string \<Rightarrow> string \<Rightarrow> (cloud, tags_response) io" where
  "describe_tags_autoscaling autoscaling asg_name key =
     api (DescribeTagsAutoScaling (client_region autoscaling) asg_name key)
       (\<lambda>c. (\<lparr>Tags = Some (filter (\<lambda>t. tag_Key t = key)
                              (group_tags (regions c (client_region autoscaling)) asg_name))\<rparr>, c))"

text \<open>An update that succeeds sets the three sizes of the group as passed.\<close>

definition update_effect :: "string \<Rightarrow> string \<Rightarrow> int \<Rightarrow> int \<Rightarrow> int \<Rightarrow> cloud \<Rightarrow> cloud" where
  "update_effect r asg_name mn mx desired c =
     c\<lparr>regions := (regions c)(r := (regions c r)\<lparr>groups :=
          (\<lambda>n. if n = asg_name
               then map_option (\<lambda>_. \<lparr>min_size = mn, max_size = mx, desired_capacity = desired\<rparr>)
                      (groups (regions c r) n)
               else groups (regions c r) n)\<rparr>)\<rparr>"

definition update_auto_scaling_group ::
  "client \<Rightarrow> string \<Rightarrow> int \<Rightarrow> int \<Rightarrow> int \<Rightarrow> (cloud, unit) io" where
  "update_auto_scaling_group autoscaling asg_name mn mx desired =
     api (UpdateAutoScalingGroup (client_region autoscaling) asg_name mn mx desired)
       (\<lambda>c. ((), update_effect (client_region autoscaling) asg_name mn mx desired c))"

section \<open>The program\<close>

record governance_result =
  stopped_instances :: "string list"
  scaled_down_asgs :: "string list"
  errors :: "string list"

record aggregate_results = governance_result +
  regions_processed :: "string list"

record response =
  statusCode :: int
  body :: aggregate_results

subsection \<open>get_allowed_regions\<close>

definition get_allowed_regions :: "(string \<rightharpoonup> string) \<Rightarrow> string list" where
  "get_allowed_regions env =
     (let allowed_regions_str = (case env ''ALLOWED_REGIONS'' of None \<Rightarrow> ''us-east-1'' | Some v \<Rightarrow> v)
      in map strip (filter (\<lambda>region. strip region \<noteq> []) (str_split (CHR '','') allowed_regions_str)))"

subsection \<open>is_instance_stop_protected and is_asg_protected\<close>

text \<open>\<open>tag.get('Value', '').lower() == 'keep'\<close>\<close>

definition keep_tag :: "tag \<Rightarrow> bool" where
  "keep_tag t = (lower (case tag_Value t of None \<Rightarrow> [] | Some v \<Rightarrow> v) = ''keep'')"

text \<open>\<open>response.get('DisableApiStop', {}).get('Value', False)\<close>\<close>

definition disable_api_stop_value :: "instance_attribute \<Rightarrow> bool" where
  "disable_api_stop_value response =
     (case DisableApiStop response of
        None \<Rightarrow> False
      | Some a \<Rightarrow> (case attr_Value a of None \<Rightarrow> False | Some b \<Rightarrow> b))"

text \<open>\<open>tags_response.get('Tags', [])\<close>\<close>

definition tags_of_response :: "tags_response \<Rightarrow> tag list" where
  "tags_of_response r = (case Tags r of None \<Rightarrow> [] | Some ts \<Rightarrow> ts)"

text \<open>
  The body of the \<open>try\<close> of each function is a definition of its own, so that
  "the check raises" can be said of it.
\<close>

definition instance_protection_check :: "client \<Rightarrow> string \<Rightarrow> (cloud, bool) io" where
  "instance_protection_check ec2 instance_id =
     io_bind (describe_instance_attribute ec2 instance_id ''disableApiStop'') (\<lambda>response.
       if disable_api_stop_value response then io_return True
       else io_bind (describe_tags ec2 instance_id ''ResourceGovernance'') (\<lambda>tags_response.
              io_return (list_ex keep_tag (tags_of_response tags_response))))"

definition is_instance_stop_protected :: "client \<Rightarrow> string \<Rightarrow> (cloud, bool) io" where
  "is_instance_stop_protected ec2 instance_id =
     io_try (instance_protection_check ec2 instance_id) (\<lambda>e. io_return True)"

definition asg_protection_check :: "client \<Rightarrow> string \<Rightarrow> (cloud, bool) io" where
  "asg_protection_check autoscaling asg_name =
     io_bind (describe_tags_autoscaling autoscaling asg_name ''ResourceGovernance'') (\<lambda>response.
       io_return (list_ex keep_tag (tags_of_response response)))"

definition is_asg_protected :: "client \<Rightarrow> string \<Rightarrow> (cloud, bool) io" where
  "is_asg_protected autoscaling asg_name =
     io_try (asg_protection_check autoscaling asg_name) (\<lambda>e. io_return True)"

subsection \<open>stop_idle_instances\<close>

text \<open>\<open>f"{name} ({region})"\<close>\<close>

definition in_region :: "string \<Rightarrow> string \<Rightarrow> string" where
  "in_region name region = name @ '' ('' @ region @ '')''"

text \<open>
  The body of the inner loop. A protected instance is skipped (\<open>continue\<close>); a stop
  that raises is printed and nothing else.
\<close>

definition stop_instance_step :: "client \<Rightarrow> string \<Rightarrow> ec2_instance \<Rightarrow> (string list \<times> cloud, unit) io" where
  "stop_instance_step ec2 region inst =
     io_bind (io_lift (is_instance_stop_protected ec2 (InstanceId inst))) (\<lambda>protected.
       if protected then io_return ()
       else io_try
              (io_bind (io_lift (stop_instances ec2 [InstanceId inst])) (\<lambda>_.
                 io_modify (\<lambda>stopped_instances. stopped_instances @ [in_region (InstanceId inst) region])))
              (\<lambda>e. io_return ()))"

definition stop_idle_instances :: "client \<Rightarrow> string \<Rightarrow> (cloud, string list) io" where
  "stop_idle_instances ec2 region =
     run_local []
       (io_try
          (io_bind (io_lift (describe_instances ec2 [''running''])) (\<lambda>response.
             for_each response (\<lambda>reservation.
               for_each reservation (stop_instance_step ec2 region))))
          (\<lambda>e. io_return ()))"

subsection \<open>scale_down_asgs\<close>

definition scale_down_step :: "client \<Rightarrow> string \<Rightarrow> asg \<Rightarrow> (string list \<times> cloud, unit) io" where
  "scale_down_step autoscaling region g =
     io_bind (io_lift (is_asg_protected autoscaling (AutoScalingGroupName g))) (\<lambda>protected.
       if protected then io_return ()
       else if DesiredCapacity g > 0 then
         io_try
           (io_bind (io_lift (update_auto_scaling_group autoscaling (AutoScalingGroupName g)
                                0 (MaxSize g) 0)) (\<lambda>_.
              io_modify (\<lambda>scaled_down_asgs. scaled_down_asgs @ [in_region (AutoScalingGroupName g) region])))
           (\<lambda>e. io_return ())
       else io_return ())"

text \<open>The body of the loop over the pages: fetch the page, then loop over its groups.\<close>

definition scale_down_page :: "client \<Rightarrow> string \<Rightarrow> nat \<Rightarrow> (string list \<times> cloud, unit) io" where
  "scale_down_page autoscaling region k =
     io_bind (io_lift (next_page autoscaling k)) (\<lambda>page.
       for_each page (scale_down_step autoscaling region))"

definition scale_down_asgs :: "client \<Rightarrow> string \<Rightarrow> (cloud, string list) io" where
  "scale_down_asgs autoscaling region =
     run_local []
       (io_try
          (io_bind (io_lift (paginate autoscaling)) (\<lambda>pages.
             for_each pages (scale_down_page autoscaling region)))
          (\<lambda>e. io_return ()))"

subsection \<open>process_region\<close>

definition region_error :: "string \<Rightarrow> exn \<Rightarrow> string" where
  "region_error region e = ''Error processing region '' @ region @ '': '' @ e"

definition process_region :: "string \<Rightarrow> (cloud, governance_result) io" where
  "process_region region =
     io_bind (boto3_client ''ec2'' region) (\<lambda>ec2.
     io_bind (boto3_client ''autoscaling'' region) (\<lambda>autoscaling.
       run_local \<lparr>stopped_instances = [], scaled_down_asgs = [], errors = []\<rparr>
         (io_try
            (io_bind (io_lift (stop_idle_instances ec2 region)) (\<lambda>stopped.
             io_bind (io_modify (\<lambda>region_results. region_results\<lparr>stopped_instances := stopped\<rparr>)) (\<lambda>_.
             io_bind (io_lift (scale_down_asgs autoscaling region)) (\<lambda>scaled.
               io_modify (\<lambda>region_results. region_results\<lparr>scaled_down_asgs := scaled\<rparr>)))))
            (\<lambda>e. io_modify (\<lambda>region_results.
                    region_results\<lparr>errors := errors region_results @ [region_error region e]\<rparr>)))))"

subsection \<open>lambda_handler\<close>

definition merge_region :: "string \<Rightarrow> governance_result \<Rightarrow> aggregate_results \<Rightarrow> aggregate_results" where
  "merge_region region region_results aggregate =
     aggregate\<lparr>stopped_instances := stopped_instances aggregate @ stopped_instances region_results,
               scaled_down_asgs := scaled_down_asgs aggregate @ scaled_down_asgs region_results,
               errors := errors aggregate @ errors region_results,
               regions_processed := regions_processed aggregate @ [region]\<rparr>"

definition handle_region :: "string \<Rightarrow> (aggregate_results \<times> cloud, unit) io" where
  "handle_region region =
     io_try
       (io_bind (io_lift (process_region region)) (\<lambda>region_results.
          io_modify (merge_region region region_results)))
       (\<lambda>e. io_modify (\<lambda>aggregate. aggregate\<lparr>errors := errors aggregate @ [region_error region e]\<rparr>))"

text \<open>
  The body of the response is kept as the record that \<open>json.dumps\<close> serialises.
\<close>

definition lambda_handler :: "(cloud, response) io" where
  "lambda_handler =
     (\<lambda>c. (io_bind
             (run_local \<lparr>stopped_instances = [], scaled_down_asgs = [], errors = [],
                         regions_processed = []\<rparr>
                (for_each (get_allowed_regions (environ c)) handle_region))
             (\<lambda>aggregate. io_return \<lparr>statusCode = 200, body = aggregate\<rparr>)) c)"

section \<open>Notions used in the statements and proofs\<close>

text \<open>The cloud with some more calls logged, and the calls logged between two clouds.\<close>

definition with_calls :: "api_call list \<Rightarrow> cloud \<Rightarrow> cloud" where
  "with_calls new c = c\<lparr>calls := calls c @ new\<rparr>"

definition new_calls :: "cloud \<Rightarrow> cloud \<Rightarrow> api_call list" where
  "new_calls c c' = drop (length (calls c)) (calls c')"

definition with_clients :: "string \<Rightarrow> cloud \<Rightarrow> cloud" where
  "with_clients region c =
     with_calls [CreateClient ''ec2'' region, CreateClient ''autoscaling'' region] c"

text \<open>
  What one invocation can do to the cloud: it logs calls, takes instances out of
  \<open>running\<close> and sets the minimum and the desired capacity of groups to zero. What
  the provider reports about protection and which calls it refuses stay as they are.
\<close>

definition zero_group :: "group_info \<Rightarrow> group_info" where
  "zero_group g = \<lparr>min_size = 0, max_size = max_size g, desired_capacity = 0\<rparr>"

definition evolves :: "cloud \<Rightarrow> cloud \<Rightarrow> bool" where
  "evolves c c' \<longleftrightarrow>
     environ c' = environ c \<and> fault c' = fault c \<and>
     (\<exists>new. calls c' = calls c @ new) \<and>
     (\<forall>r. reservations (regions c' r) = reservations (regions c r) \<and>
          api_stop (regions c' r) = api_stop (regions c r) \<and>
          instance_tags (regions c' r) = instance_tags (regions c r) \<and>
          asg_pages (regions c' r) = asg_pages (regions c r) \<and>
          group_tags (regions c' r) = group_tags (regions c r) \<and>
          (\<forall>i. instances (regions c' r) i = instances (regions c r) i \<or>
               instances (regions c' r) i = map_option stop_instance_info (instances (regions c r) i)) \<and>
          (\<forall>n. groups (regions c' r) n = groups (regions c r) n \<or>
               groups (regions c' r) n = map_option zero_group (groups (regions c r) n)))"

definition instance_verdict :: "cloud \<Rightarrow> string \<Rightarrow> string \<Rightarrow> bool" where
  "instance_verdict c r i \<longleftrightarrow>
     fault c (DescribeInstanceAttribute r i ''disableApiStop'') \<noteq> None \<or>
     disable_api_stop_value (api_stop (regions c r) i) \<or>
     fault c (DescribeTags r i ''ResourceGovernance'') \<noteq> None \<or>
     list_ex keep_tag (filter (\<lambda>t. tag_Key t = ''ResourceGovernance'') (instance_tags (regions c r) i))"

definition instance_check_calls :: "cloud \<Rightarrow> string \<Rightarrow> string \<Rightarrow> api_call list" where
  "instance_check_calls c r i =
     DescribeInstanceAttribute r i ''disableApiStop'' #
     (if fault c (DescribeInstanceAttribute r i ''disableApiStop'') = None \<and>
         \<not> disable_api_stop_value (api_stop (regions c r) i)
      then [DescribeTags r i ''ResourceGovernance''] else [])"

text \<open>What the calls made by the instance sweeper in region \<open>r\<close> may be.\<close>

definition running :: "cloud \<Rightarrow> string \<Rightarrow> string \<Rightarrow> bool" where
  "running c r i = (case instances (regions c r) i of None \<Rightarrow> False | Some info \<Rightarrow> state_name info = ''running'')"

fun ec2_sweep_call :: "cloud \<Rightarrow> string \<Rightarrow> api_call \<Rightarrow> bool" where
  "ec2_sweep_call c r (StopInstances r' ids) =
     (r' = r \<and> (case ids of [i] \<Rightarrow> running c r i \<and> \<not> instance_verdict c r i | _ \<Rightarrow> False))"
| "ec2_sweep_call c r (DescribeInstances r' f) = True"
| "ec2_sweep_call c r (DescribeInstanceAttribute r' i a) = True"
| "ec2_sweep_call c r (DescribeTags r' i k) = True"
| "ec2_sweep_call c r call = False"

definition running_listing :: "cloud \<Rightarrow> string \<Rightarrow> ec2_instance list" where
  "running_listing c r =
     concat (map (List.map_filter (listed_instance (regions c r) [''running''])) (reservations (regions c r)))"

text \<open>The verdict of \<open>is_asg_protected\<close>, as a function of what the provider reports.\<close>

definition asg_verdict :: "cloud \<Rightarrow> string \<Rightarrow> string \<Rightarrow> bool" where
  "asg_verdict c r n \<longleftrightarrow>
     fault c (DescribeTagsAutoScaling r n ''ResourceGovernance'') \<noteq> None \<or>
     list_ex keep_tag (filter (\<lambda>t. tag_Key t = ''ResourceGovernance'') (group_tags (regions c r) n))"

text \<open>
  A listed group \<open>g\<close> and the cloud: \<open>describes c r g\<close> when the group is still as
  listed, or has been set to zero since; \<open>origin c r g\<close> when the group was listed
  from \<open>c\<close>, or from \<open>c\<close> after it had been set to zero.
\<close>

definition describes :: "cloud \<Rightarrow> string \<Rightarrow> asg \<Rightarrow> bool" where
  "describes c r g =
     (case groups (regions c r) (AutoScalingGroupName g) of
        None \<Rightarrow> False
      | Some gi \<Rightarrow> max_size gi = MaxSize g \<and>
                  (desired_capacity gi = DesiredCapacity g \<or> desired_capacity gi = 0))"

definition origin :: "cloud \<Rightarrow> string \<Rightarrow> asg \<Rightarrow> bool" where
  "origin c r g =
     (case groups (regions c r) (AutoScalingGroupName g) of
        None \<Rightarrow> False
      | Some gi \<Rightarrow> max_size gi = MaxSize g \<and>
                  (DesiredCapacity g = desired_capacity gi \<or> DesiredCapacity g = 0))"

text \<open>
  Group \<open>n\<close> of \<open>c0\<close> was at a positive capacity, unprotected, its update is not
  refused, and in \<open>c\<close> it is at zero with its maximum kept.
\<close>

definition scaled_down :: "cloud \<Rightarrow> cloud \<Rightarrow> string \<Rightarrow> string \<Rightarrow> bool" where
  "scaled_down c0 c r n =
     (case groups (regions c0 r) n of
        None \<Rightarrow> False
      | Some gi \<Rightarrow> desired_capacity gi > 0 \<and> \<not> asg_verdict c0 r n \<and>
                  fault c0 (UpdateAutoScalingGroup r n 0 (max_size gi) 0) = None \<and>
                  groups (regions c r) n = Some (zero_group gi))"

text \<open>Nothing is left to do for group \<open>n\<close>.\<close>

definition settled_group :: "cloud \<Rightarrow> string \<Rightarrow> string \<Rightarrow> bool" where
  "settled_group c r n =
     (case groups (regions c r) n of
        None \<Rightarrow> True
      | Some gi \<Rightarrow> asg_verdict c r n \<or> desired_capacity gi \<le> 0 \<or>
                  fault c (UpdateAutoScalingGroup r n 0 (max_size gi) 0) \<noteq> None)"

text \<open>What the calls made by the group sweeper in region \<open>r\<close> may be.\<close>

fun asg_sweep_call :: "cloud \<Rightarrow> string \<Rightarrow> api_call \<Rightarrow> bool" where
  "asg_sweep_call c r (UpdateAutoScalingGroup r' n mn mx d) =
     (r' = r \<and> mn = 0 \<and> d = 0 \<and> \<not> asg_verdict c r n \<and>
      (case groups (regions c r) n of
         None \<Rightarrow> False
       | Some gi \<Rightarrow> max_size gi = mx \<and> desired_capacity gi > 0))"
| "asg_sweep_call c r (DescribeAutoScalingGroups r' k) = True"
| "asg_sweep_call c r (DescribeTagsAutoScaling r' n k) = True"
| "asg_sweep_call c r call = False"

definition fetched_page :: "cloud \<Rightarrow> string \<Rightarrow> nat \<Rightarrow> asg list" where
  "fetched_page c r k = List.map_filter (listed_group (regions c r)) (asg_pages (regions c r) ! k)"

definition reached_pages :: "cloud \<Rightarrow> string \<Rightarrow> nat list \<Rightarrow> nat list" where
  "reached_pages c r ks = takeWhile (\<lambda>k. fault c (DescribeAutoScalingGroups r k) = None) ks"

text \<open>
  Nothing is left to do in region \<open>r\<close>: every listed running instance is protected or
  its stop is refused, and so for the groups of the pages that can be fetched; or the
  listing, or the construction of a client, is refused.
\<close>

definition ec2_settled :: "cloud \<Rightarrow> string \<Rightarrow> bool" where
  "ec2_settled c r \<longleftrightarrow>
     fault c (DescribeInstances r [''running'']) \<noteq> None \<or>
     (\<forall>res\<in>set (reservations (regions c r)). \<forall>i\<in>set res.
        running c r i \<longrightarrow> instance_verdict c r i \<or> fault c (StopInstances r [i]) \<noteq> None)"

definition asg_settled :: "cloud \<Rightarrow> string \<Rightarrow> bool" where
  "asg_settled c r \<longleftrightarrow>
     (\<forall>k\<in>set (reached_pages c r [0 ..< length (asg_pages (regions c r))]).
        \<forall>n\<in>set (asg_pages (regions c r) ! k). settled_group c r n)"

definition region_settled :: "cloud \<Rightarrow> string \<Rightarrow> bool" where
  "region_settled c r \<longleftrightarrow>
     fault c (CreateClient ''ec2'' r) \<noteq> None \<or> fault c (CreateClient ''autoscaling'' r) \<noteq> None \<or>
     (ec2_settled c r \<and> asg_settled c r)"

section \<open>Example clouds\<close>

text \<open>
  One region with three instances (one of them tagged \<open>ResourceGovernance=Keep\<close>, one
  stopped) and three groups on two pages (one at capacity zero, one tagged).
\<close>

definition example_region :: region_state where
  "example_region =
     \<lparr>reservations = [[''i-1'', ''i-2''], [''i-3'']],
      instances = [''i-1'' \<mapsto> \<lparr>state_name = ''running'', instance_type = Some ''t3.micro''\<rparr>,
                   ''i-2'' \<mapsto> \<lparr>state_name = ''running'', instance_type = None\<rparr>,
                   ''i-3'' \<mapsto> \<lparr>state_name = ''stopped'', instance_type = None\<rparr>],
      api_stop = (\<lambda>i. \<lparr>DisableApiStop = Some \<lparr>attr_Value = Some False\<rparr>\<rparr>),
      instance_tags = (\<lambda>i. if i = ''i-2''
                            then [\<lparr>tag_Key = ''ResourceGovernance'', tag_Value = Some ''Keep''\<rparr>]
                            else []),
      asg_pages = [[''asg-a'', ''asg-b''], [''asg-c'']],
      groups = [''asg-a'' \<mapsto> \<lparr>min_size = 1, max_size = 5, desired_capacity = 3\<rparr>,
                ''asg-b'' \<mapsto> \<lparr>min_size = 0, max_size = 4, desired_capacity = 0\<rparr>,
                ''asg-c'' \<mapsto> \<lparr>min_size = 2, max_size = 2, desired_capacity = 2\<rparr>],
      group_tags = (\<lambda>n. if n = ''asg-c''
                         then [\<lparr>tag_Key = ''ResourceGovernance'', tag_Value = Some ''KEEP''\<rparr>]
                         else [])\<rparr>"

definition example_cloud :: cloud where
  "example_cloud =
     \<lparr>environ = [''ALLOWED_REGIONS'' \<mapsto> ''us-east-1''],
      regions = (\<lambda>r. example_region),
      fault = Map.empty,
      calls = []\<rparr>"

text \<open>The same cloud where the provider refuses some calls.\<close>

definition no_ec2_client_cloud :: cloud where
  "no_ec2_client_cloud =
     example_cloud\<lparr>fault := [CreateClient ''ec2'' ''us-east-1'' \<mapsto> ''NoCredentialsError'']\<rparr>"

definition failing_sweeps_cloud :: cloud where
  "failing_sweeps_cloud =
     example_cloud\<lparr>fault := [DescribeInstances ''us-east-1'' [''running''] \<mapsto> ''RequestLimitExceeded'',
                               DescribeAutoScalingGroups ''us-east-1'' 0 \<mapsto> ''Throttling'']\<rparr>"

text \<open>
  The example cloud where the provider refuses the protection queries of one instance
  and of one group.
\<close>

definition failing_checks_cloud :: cloud where
  "failing_checks_cloud =
     example_cloud\<lparr>fault :=
       [DescribeInstanceAttribute ''us-east-1'' ''i-1'' ''disableApiStop'' \<mapsto> ''RequestLimitExceeded'',
        DescribeTagsAutoScaling ''us-east-1'' ''asg-a'' ''ResourceGovernance'' \<mapsto> ''Throttling'']\<rparr>"

text \<open>The region of a call that constructs an EC2 client: the first thing \<open>process_region\<close> does.\<close>

fun ec2_client_region :: "api_call \<Rightarrow> string option" where
  "ec2_client_region (CreateClient service region) = (if service = ''ec2'' then Some region else None)"
| "ec2_client_region call = None"

text \<open>The exception with which \<open>process_region\<close> ends in region \<open>r\<close>, if any.\<close>

definition region_exn :: "cloud \<Rightarrow> string \<Rightarrow> exn option" where
  "region_exn c r =
     (case fault c (CreateClient ''ec2'' r) of
        Some e \<Rightarrow> Some e
      | None \<Rightarrow> fault c (CreateClient ''autoscaling'' r))"

definition initial_aggregate :: aggregate_results where
  "initial_aggregate =
     \<lparr>stopped_instances = [], scaled_down_asgs = [], errors = [], regions_processed = []\<rparr>"

text \<open>
  A configuration value that lists the given entries: the entries with commas between
  them.
\<close>

fun comma_join :: "string list \<Rightarrow> string" where
  "comma_join [] = []"
| "comma_join [e] = e"
| "comma_join (e # es) = e @ CHR '','' # comma_join es"

text \<open>A region with no resources.\<close>

definition quiet_region :: region_state where
  "quiet_region =
     \<lparr>reservations = [], instances = Map.empty,
      api_stop = (\<lambda>i. \<lparr>DisableApiStop = None\<rparr>), instance_tags = (\<lambda>i. []),
      asg_pages = [], groups = Map.empty, group_tags = (\<lambda>n. [])\<rparr>"

text \<open>
  Three regions, the last with the resources of the example region; the autoscaling
  client of the second one cannot be constructed.
\<close>

definition three_regions_cloud :: cloud where
  "three_regions_cloud =
     \<lparr>environ = [''ALLOWED_REGIONS'' \<mapsto> ''us-east-1,eu-west-1,ap-south-1''],
      regions = (\<lambda>r. if r = ''ap-south-1'' then example_region else quiet_region),
      fault = [CreateClient ''autoscaling'' ''eu-west-1'' \<mapsto> ''EndpointConnectionError''],
      calls = []\<rparr>"

text \<open>A configuration that names one region twice, with blanks and empty entries.\<close>

definition repeated_region_cloud :: cloud where
  "repeated_region_cloud =
     \<lparr>environ = [''ALLOWED_REGIONS'' \<mapsto> ''us-east-1, eu-west-1 ,us-east-1,,''],
      regions = (\<lambda>r. if r = ''eu-west-1'' then example_region else quiet_region),
      fault = Map.empty,
      calls = []\<rparr>"

text \<open>The example cloud where the provider refuses to stop instance \<open>i-1\<close>.\<close>

definition stop_refused_cloud :: cloud where
  "stop_refused_cloud =
     example_cloud\<lparr>fault := [StopInstances ''us-east-1'' [''i-1''] \<mapsto> ''UnauthorizedOperation'']\<rparr>"

text \<open>
  What the policy says, in its own words: two strings are equal case-insensitively when
  they have the same length and, position by position, the same character or the two
  cases of one ASCII letter; a list of tags holds a keep tag when one of them has the key
  \<open>ResourceGovernance\<close> and a value equal to \<open>keep\<close> case-insensitively.
\<close>

definition ascii_letter :: "char \<Rightarrow> bool" where
  "ascii_letter ch =
     (let n = (of_char ch :: nat) in (65 \<le> n \<and> n \<le> 90) \<or> (97 \<le> n \<and> n \<le> 122))"

definition same_letter :: "char \<Rightarrow> char \<Rightarrow> bool" where
  "same_letter a b \<longleftrightarrow>
     a = b \<or>
     (ascii_letter a \<and> ascii_letter b \<and>
      ((of_char a :: nat) + 32 = of_char b \<or> (of_char b :: nat) + 32 = of_char a))"

definition equals_ignoring_case :: "string \<Rightarrow> string \<Rightarrow> bool" where
  "equals_ignoring_case a b = list_all2 same_letter a b"

definition has_keep_tag :: "tag list \<Rightarrow> bool" where
  "has_keep_tag ts =
     list_ex (\<lambda>t. tag_Key t = ''ResourceGovernance'' \<and>
                  (case tag_Value t of None \<Rightarrow> False | Some v \<Rightarrow> equals_ignoring_case v ''keep'')) ts"

text \<open>The provider reports the attribute \<open>disableApiStop\<close> as true.\<close>

definition reports_api_stop_disabled :: "instance_attribute \<Rightarrow> bool" where
  "reports_api_stop_disabled response \<longleftrightarrow>
     DisableApiStop response = Some \<lparr>attr_Value = Some True\<rparr>"

text \<open>The example cloud where the provider refuses the update of group \<open>asg-a\<close>.\<close>

definition update_refused_cloud :: cloud where
  "update_refused_cloud =
     example_cloud\<lparr>fault := [UpdateAutoScalingGroup ''us-east-1'' ''asg-a'' 0 5 0 \<mapsto> ''ValidationError'']\<rparr>"

section \<open>Basic facts\<close>

lemma api_apply:
  "api call effect c =
     (case fault c call of
        Some e \<Rightarrow> (Inl e, with_calls [call] c)
      | None \<Rightarrow> (case effect (with_calls [call] c) of (x, c2) \<Rightarrow> (Inr x, c2)))"
  by (simp add: api_def Let_def with_calls_def split: option.splits)

lemma with_calls_simps [simp]:
  "environ (with_calls new c) = environ c"
  "regions (with_calls new c) = regions c"
  "fault (with_calls new c) = fault c"
  "calls (with_calls new c) = calls c @ new"
  "with_calls new2 (with_calls new1 c) = with_calls (new1 @ new2) c"
  by (simp_all add: with_calls_def)

subsection \<open>The sweepers and the orchestrator return\<close>

lemma run_local_try_returns:
  "\<exists>l c'. run_local init (io_try m (\<lambda>e. io_return ())) c = (Inr l, c')"
  by (simp add: run_local_def io_try_def io_return_def split: prod.splits sum.splits)

lemma stop_idle_instances_returns:
  "\<exists>l c'. stop_idle_instances ec2 region c = (Inr l, c')"
  unfolding stop_idle_instances_def by (rule run_local_try_returns)

lemma scale_down_asgs_returns:
  "\<exists>l c'. scale_down_asgs autoscaling region c = (Inr l, c')"
  unfolding scale_down_asgs_def by (rule run_local_try_returns)

lemma process_region_ok:
  assumes "fault c (CreateClient ''ec2'' region) = None"
    and "fault c (CreateClient ''autoscaling'' region) = None"
    and "stop_idle_instances (Client ''ec2'' region) region (with_clients region c) = (Inr stopped, c1)"
    and "scale_down_asgs (Client ''autoscaling'' region) region c1 = (Inr scaled, c2)"
  shows "process_region region c =
           (Inr \<lparr>stopped_instances = stopped, scaled_down_asgs = scaled, errors = []\<rparr>, c2)"
  using assms
  by (simp add: process_region_def boto3_client_def api_apply io_bind_def run_local_def io_try_def
        io_lift_def io_modify_def with_clients_def)

lemma process_region_fail_ec2:
  assumes "fault c (CreateClient ''ec2'' region) = Some e"
  shows "process_region region c = (Inl e, with_calls [CreateClient ''ec2'' region] c)"
  using assms
  by (simp add: process_region_def boto3_client_def api_apply io_bind_def)

lemma process_region_fail_autoscaling:
  assumes "fault c (CreateClient ''ec2'' region) = None"
    and "fault c (CreateClient ''autoscaling'' region) = Some e"
  shows "process_region region c = (Inl e, with_clients region c)"
  using assms
  by (simp add: process_region_def boto3_client_def api_apply io_bind_def with_clients_def)

section \<open>The instance sweeper, step by step\<close>

lemma is_instance_stop_protected_eq:
  "is_instance_stop_protected (Client s r) i c =
     (Inr (instance_verdict c r i), with_calls (instance_check_calls c r i) c)"
  by (simp add: is_instance_stop_protected_def instance_protection_check_def
        describe_instance_attribute_def describe_tags_def api_apply io_try_def io_bind_def
        io_return_def instance_verdict_def instance_check_calls_def tags_of_response_def
        split: option.splits)

lemma stop_instance_step_eq:
  "stop_instance_step (Client s r) region x (acc, c) =
     (Inr (),
      if instance_verdict c r (InstanceId x)
      then (acc, with_calls (instance_check_calls c r (InstanceId x)) c)
      else (case fault c (StopInstances r [InstanceId x]) of
              Some e \<Rightarrow>
                (acc, with_calls (instance_check_calls c r (InstanceId x) @ [StopInstances r [InstanceId x]]) c)
            | None \<Rightarrow>
                (acc @ [in_region (InstanceId x) region],
                 stop_effect r [InstanceId x]
                   (with_calls (instance_check_calls c r (InstanceId x) @ [StopInstances r [InstanceId x]]) c))))"
  by (simp add: stop_instance_step_def is_instance_stop_protected_eq stop_instances_def api_apply
        io_try_def io_bind_def io_return_def io_lift_def io_modify_def
        split: option.splits)

lemma evolves_refl [simp]: "evolves c c"
  by (simp add: evolves_def)

lemma stop_instance_info_idem [simp]: "stop_instance_info (stop_instance_info x) = stop_instance_info x"
  by (simp add: stop_instance_info_def)

lemma zero_group_idem [simp]: "zero_group (zero_group g) = zero_group g"
  by (simp add: zero_group_def)

lemma evolves_trans: "evolves a b \<Longrightarrow> evolves b c \<Longrightarrow> evolves a c"
  unfolding evolves_def
  apply (intro conjI allI)
         apply simp
        apply simp
       apply auto[1]
      apply simp
  apply simp
  apply simp
  apply simp
  apply simp
  subgoal for r i
    apply (elim conjE)
    apply (drule_tac x=r in spec)+
    apply (elim conjE)
    apply (drule_tac x=i in spec)+
    by (auto simp: option.map_comp comp_def)
  subgoal for r n
    apply (elim conjE)
    apply (drule_tac x=r in spec)+
    apply (elim conjE)
    apply (drule_tac x=n in spec)+
    by (auto simp: option.map_comp comp_def)
  done


lemma evolves_with_calls [simp]: "evolves c (with_calls new c)"
  by (simp add: evolves_def)

lemma evolves_stop_effect [simp]: "evolves c (stop_effect r ids c)"
  by (simp add: evolves_def stop_effect_def)

lemma evolves_fault: "evolves c c' \<Longrightarrow> fault c' = fault c"
  by (simp add: evolves_def)

lemma evolves_instance_verdict: "evolves c c' \<Longrightarrow> instance_verdict c' r i = instance_verdict c r i"
  by (simp add: evolves_def instance_verdict_def)

lemma new_calls_self [simp]: "new_calls c c = []"
  by (simp add: new_calls_def)

lemma new_calls_with_calls [simp]: "new_calls c (with_calls new c) = new"
  by (simp add: new_calls_def)

lemma calls_stop_effect [simp]: "calls (stop_effect r ids c) = calls c"
  by (simp add: stop_effect_def)

lemma new_calls_trans:
  "evolves a b \<Longrightarrow> evolves b c \<Longrightarrow> new_calls a c = new_calls a b @ new_calls b c"
  by (auto simp: evolves_def new_calls_def)

lemma evolves_instances:
  "evolves c c' \<Longrightarrow> instances (regions c' r) i = instances (regions c r) i \<or>
     instances (regions c' r) i = map_option stop_instance_info (instances (regions c r) i)"
  by (simp add: evolves_def)

lemma evolves_groups:
  "evolves c c' \<Longrightarrow> groups (regions c' r) n = groups (regions c r) n \<or>
     groups (regions c' r) n = map_option zero_group (groups (regions c r) n)"
  by (simp add: evolves_def)

lemma evolves_running: "evolves c c' \<Longrightarrow> running c' r i \<Longrightarrow> running c r i"
  using evolves_instances[of c c' r i]
  by (cases "instances (regions c r) i") (auto simp: running_def stop_instance_info_def)

lemma instance_check_calls_ok: "call \<in> set (instance_check_calls c r i) \<Longrightarrow> ec2_sweep_call c0 r call"
  by (auto simp: instance_check_calls_def split: if_splits)

lemma stop_instance_step_evolves:
  "stop_instance_step (Client s r) region x (acc, c) = (res, (acc', c')) \<Longrightarrow> res = Inr () \<and> evolves c c'"
  by (auto simp: stop_instance_step_eq split: if_splits option.splits intro: evolves_trans[OF evolves_with_calls evolves_stop_effect])

lemma stop_instance_step_calls:
  assumes "stop_instance_step (Client s r) region x (acc, c) = (res, (acc', c'))"
    and "running c0 r (InstanceId x)" and "evolves c0 c"
    and "call \<in> set (new_calls c c')"
  shows "ec2_sweep_call c0 r call"
  using assms
  by (auto simp: stop_instance_step_eq new_calls_def evolves_instance_verdict
      split: if_splits option.splits dest: instance_check_calls_ok)

lemma stop_instance_step_acc:
  assumes "stop_instance_step (Client s r) region x (acc, c) = (res, (acc', c'))"
  shows "acc' = acc \<or> (acc' = acc @ [in_region (InstanceId x) region] \<and> \<not> instance_verdict c r (InstanceId x)
           \<and> fault c (StopInstances r [InstanceId x]) = None)"
  using assms by (auto simp: stop_instance_step_eq split: if_splits option.splits)

lemma stop_instance_step_settles:
  assumes "stop_instance_step (Client s r) region x (acc, c) = (res, (acc', c'))"
  shows "instance_verdict c r (InstanceId x) \<or> fault c (StopInstances r [InstanceId x]) \<noteq> None
           \<or> \<not> running c' r (InstanceId x)"
  using assms
  by (auto simp: stop_instance_step_eq running_def stop_effect_def stop_instance_info_def
      split: if_splits option.splits)

lemma stop_loop_evolves:
  "for_each xs (stop_instance_step (Client s r) region) (acc, c) = (res, (acc', c'))
     \<Longrightarrow> res = Inr () \<and> evolves c c'"
proof (induction xs arbitrary: acc c)
  case Nil
  then show ?case by (simp add: io_return_def)
next
  case (Cons x xs)
  obtain r1 acc1 c1 where step: "stop_instance_step (Client s r) region x (acc, c) = (r1, (acc1, c1))"
    by (metis surj_pair)
  from stop_instance_step_evolves[OF step] have r1: "r1 = Inr ()" and e1: "evolves c c1" by auto
  from Cons.prems step r1 have rest: "for_each xs (stop_instance_step (Client s r) region) (acc1, c1) = (res, (acc', c'))"
    by (simp add: io_bind_def)
  from Cons.IH[OF rest] e1 show ?case by (auto intro: evolves_trans)
qed

lemma stop_loop_calls:
  assumes "for_each xs (stop_instance_step (Client s r) region) (acc, c) = (res, (acc', c'))"
    and "\<forall>x\<in>set xs. running c0 r (InstanceId x)" and "evolves c0 c"
    and "call \<in> set (new_calls c c')"
  shows "ec2_sweep_call c0 r call"
  using assms
proof (induction xs arbitrary: acc c)
  case Nil
  then show ?case by (simp add: io_return_def)
next
  case (Cons x xs)
  obtain r1 acc1 c1 where step: "stop_instance_step (Client s r) region x (acc, c) = (r1, (acc1, c1))"
    by (metis surj_pair)
  from stop_instance_step_evolves[OF step] have r1: "r1 = Inr ()" and e1: "evolves c c1" by auto
  from Cons.prems(1) step r1 have rest: "for_each xs (stop_instance_step (Client s r) region) (acc1, c1) = (res, (acc', c'))"
    by (simp add: io_bind_def)
  from stop_loop_evolves[OF rest] have e2: "evolves c1 c'" by simp
  from Cons.prems(4) new_calls_trans[OF e1 e2]
  consider "call \<in> set (new_calls c c1)" | "call \<in> set (new_calls c1 c')" by auto
  then show ?case
  proof cases
    case 1
    with step Cons.prems show ?thesis by (auto intro: stop_instance_step_calls)
  next
    case 2
    have "evolves c0 c1" using Cons.prems(3) e1 by (rule evolves_trans)
    with Cons.IH[OF rest _ _ 2] Cons.prems(2) show ?thesis by simp
  qed
qed


lemma stop_loop_acc:
  assumes "for_each xs (stop_instance_step (Client s r) region) (acc, c) = (res, (acc', c'))"
  shows "\<exists>extra. acc' = acc @ extra \<and>
           (\<forall>z\<in>set extra. \<exists>y\<in>set xs. z = in_region (InstanceId y) region \<and>
               \<not> instance_verdict c r (InstanceId y) \<and> fault c (StopInstances r [InstanceId y]) = None)"
  using assms
proof (induction xs arbitrary: acc c)
  case Nil
  then show ?case by (simp add: io_return_def)
next
  case (Cons x xs)
  obtain r1 acc1 c1 where step: "stop_instance_step (Client s r) region x (acc, c) = (r1, (acc1, c1))"
    by (metis surj_pair)
  from stop_instance_step_evolves[OF step] have r1: "r1 = Inr ()" and e1: "evolves c c1" by auto
  from Cons.prems(1) step r1 have rest: "for_each xs (stop_instance_step (Client s r) region) (acc1, c1) = (res, (acc', c'))"
    by (simp add: io_bind_def)
  from Cons.IH[OF rest] obtain extra where ex: "acc' = acc1 @ extra"
    and exP: "\<forall>z\<in>set extra. \<exists>y\<in>set xs. z = in_region (InstanceId y) region \<and>
               \<not> instance_verdict c1 r (InstanceId y) \<and> fault c1 (StopInstances r [InstanceId y]) = None"
    by blast
  from exP e1 have exP': "\<forall>z\<in>set extra. \<exists>y\<in>set (x # xs). z = in_region (InstanceId y) region \<and>
               \<not> instance_verdict c r (InstanceId y) \<and> fault c (StopInstances r [InstanceId y]) = None"
    by (simp add: evolves_instance_verdict evolves_fault)
  from stop_instance_step_acc[OF step] show ?case
  proof
    assume "acc1 = acc"
    with ex exP' show ?thesis by blast
  next
    assume a: "acc1 = acc @ [in_region (InstanceId x) region] \<and> \<not> instance_verdict c r (InstanceId x)
           \<and> fault c (StopInstances r [InstanceId x]) = None"
    then have "acc' = acc @ (in_region (InstanceId x) region # extra)" using ex by simp
    moreover have "\<forall>z\<in>set (in_region (InstanceId x) region # extra). \<exists>y\<in>set (x # xs). z = in_region (InstanceId y) region \<and>
               \<not> instance_verdict c r (InstanceId y) \<and> fault c (StopInstances r [InstanceId y]) = None"
      using a exP' by auto
    ultimately show ?thesis by blast
  qed
qed

lemma set_map_filter: "y \<in> set (List.map_filter f xs) \<longleftrightarrow> (\<exists>x\<in>set xs. f x = Some y)"
  by (induction xs) (auto split: option.splits)

lemma stop_loop_settles:
  assumes "for_each xs (stop_instance_step (Client s r) region) (acc, c) = (res, (acc', c'))"
    and "x \<in> set xs"
  shows "instance_verdict c r (InstanceId x) \<or> fault c (StopInstances r [InstanceId x]) \<noteq> None
           \<or> \<not> running c' r (InstanceId x)"
  using assms
proof (induction xs arbitrary: acc c)
  case Nil
  then show ?case by simp
next
  case (Cons y xs)
  obtain r1 acc1 c1 where step: "stop_instance_step (Client s r) region y (acc, c) = (r1, (acc1, c1))"
    by (metis surj_pair)
  from stop_instance_step_evolves[OF step] have r1: "r1 = Inr ()" and e1: "evolves c c1" by auto
  from Cons.prems(1) step r1 have rest: "for_each xs (stop_instance_step (Client s r) region) (acc1, c1) = (res, (acc', c'))"
    by (simp add: io_bind_def)
  from stop_loop_evolves[OF rest] have e2: "evolves c1 c'" by simp
  show ?case
  proof (cases "x = y")
    case True
    from stop_instance_step_settles[OF step] True evolves_running[OF e2] show ?thesis by blast
  next
    case False
    with Cons.prems(2) have "x \<in> set xs" by simp
    from Cons.IH[OF rest this] e1 show ?thesis
      by (simp add: evolves_instance_verdict evolves_fault)
  qed
qed

lemma io_bind_return_unit [simp]: "io_bind (io_return ()) f = f ()"
  by (simp add: io_bind_def io_return_def)

lemma io_bind_assoc: "io_bind (io_bind m f) g = io_bind m (\<lambda>x. io_bind (f x) g)"
  by (rule ext) (simp add: io_bind_def split: prod.splits sum.splits)

lemma io_bind_return_right [simp]: "io_bind m (\<lambda>_::unit. io_return ()) = m"
  by (rule ext) (simp add: io_bind_def io_return_def split: prod.splits sum.splits)

lemma for_each_append:
  "for_each (xs @ ys) f = io_bind (for_each xs f) (\<lambda>_. for_each ys f)"
  by (induction xs) (simp_all add: io_bind_assoc)

lemma for_each_concat:
  "for_each xss (\<lambda>xs. for_each xs f) = for_each (concat xss) f"
  by (induction xss) (simp_all add: for_each_append)

lemma stop_idle_instances_eq:
  "stop_idle_instances (Client s r) region c =
     (case fault c (DescribeInstances r [''running'']) of
        Some e \<Rightarrow> (Inr [], with_calls [DescribeInstances r [''running'']] c)
      | None \<Rightarrow>
          (case for_each (running_listing c r) (stop_instance_step (Client s r) region)
                  ([], with_calls [DescribeInstances r [''running'']] c) of
             (res, (acc, c')) \<Rightarrow> (Inr acc, c')))"
proof (cases "fault c (DescribeInstances r [''running''])")
  case (Some e)
  then show ?thesis
    by (simp add: stop_idle_instances_def describe_instances_def api_apply run_local_def io_try_def
        io_bind_def io_lift_def io_return_def)
next
  case None
  obtain res acc c' where loop: "for_each (running_listing c r) (stop_instance_step (Client s r) region)
                  ([], with_calls [DescribeInstances r [''running'']] c) = (res, (acc, c'))"
    by (metis surj_pair)
  from stop_loop_evolves[OF loop] have "res = Inr ()" by simp
  with None loop show ?thesis
    by (simp add: stop_idle_instances_def describe_instances_def api_apply run_local_def io_try_def
        io_bind_def io_lift_def io_return_def for_each_concat running_listing_def)
qed

lemma running_listing_running:
  "x \<in> set (running_listing c r) \<Longrightarrow> running c r (InstanceId x)"
  by (auto simp: running_listing_def set_map_filter listed_instance_def running_def
      split: option.splits if_splits)

lemma running_listing_complete:
  assumes "res \<in> set (reservations (regions c r))" and "i \<in> set res" and "running c r i"
  shows "\<exists>x\<in>set (running_listing c r). InstanceId x = i"
proof -
  from assms(3) obtain info where info: "instances (regions c r) i = Some info" "state_name info = ''running''"
    by (auto simp: running_def split: option.splits)
  then have "listed_instance (regions c r) [''running''] i =
               Some \<lparr>InstanceId = i, InstanceType = instance_type info\<rparr>"
    by (simp add: listed_instance_def)
  with assms(2) have "\<lparr>InstanceId = i, InstanceType = instance_type info\<rparr>
      \<in> set (List.map_filter (listed_instance (regions c r) [''running'']) res)"
    by (auto simp: set_map_filter)
  with assms(1) have "\<lparr>InstanceId = i, InstanceType = instance_type info\<rparr> \<in> set (running_listing c r)"
    by (auto simp: running_listing_def)
  then show ?thesis by force
qed

section \<open>The group sweeper, step by step\<close>

lemma is_asg_protected_eq:
  "is_asg_protected (Client s r) n c =
     (Inr (asg_verdict c r n), with_calls [DescribeTagsAutoScaling r n ''ResourceGovernance''] c)"
  by (simp add: is_asg_protected_def asg_protection_check_def describe_tags_autoscaling_def
        api_apply io_try_def io_bind_def io_return_def asg_verdict_def tags_of_response_def
        split: option.splits)

lemma scale_down_step_eq:
  "scale_down_step (Client s r) region g (acc, c) =
     (Inr (),
      if asg_verdict c r (AutoScalingGroupName g) \<or> \<not> DesiredCapacity g > 0
      then (acc, with_calls [DescribeTagsAutoScaling r (AutoScalingGroupName g) ''ResourceGovernance''] c)
      else (case fault c (UpdateAutoScalingGroup r (AutoScalingGroupName g) 0 (MaxSize g) 0) of
              Some e \<Rightarrow>
                (acc, with_calls [DescribeTagsAutoScaling r (AutoScalingGroupName g) ''ResourceGovernance'',
                                  UpdateAutoScalingGroup r (AutoScalingGroupName g) 0 (MaxSize g) 0] c)
            | None \<Rightarrow>
                (acc @ [in_region (AutoScalingGroupName g) region],
                 update_effect r (AutoScalingGroupName g) 0 (MaxSize g) 0
                   (with_calls [DescribeTagsAutoScaling r (AutoScalingGroupName g) ''ResourceGovernance'',
                                UpdateAutoScalingGroup r (AutoScalingGroupName g) 0 (MaxSize g) 0] c))))"
  by (simp add: scale_down_step_def is_asg_protected_eq update_auto_scaling_group_def api_apply
        io_try_def io_bind_def io_return_def io_lift_def io_modify_def
        split: option.splits)

lemma calls_update_effect [simp]: "calls (update_effect r n mn mx d c) = calls c"
  by (simp add: update_effect_def)

lemma evolves_update_effect:
  assumes "describes c r g"
  shows "evolves c (update_effect r (AutoScalingGroupName g) 0 (MaxSize g) 0 c)"
  using assms
  by (auto simp: evolves_def update_effect_def describes_def zero_group_def split: option.splits)

lemma describes_with_calls [simp]: "describes (with_calls new c) r g = describes c r g"
  by (simp add: describes_def)

lemma evolves_asg_verdict: "evolves c c' \<Longrightarrow> asg_verdict c' r n = asg_verdict c r n"
  by (simp add: evolves_def asg_verdict_def)

lemma evolves_describes: "evolves c c' \<Longrightarrow> describes c r g \<Longrightarrow> describes c' r g"
  using evolves_groups[of c c' r "AutoScalingGroupName g"]
  by (auto simp: describes_def zero_group_def split: option.splits)

lemma evolves_settled_group: "evolves c c' \<Longrightarrow> settled_group c r n \<Longrightarrow> settled_group c' r n"
  using evolves_groups[of c c' r n]
  by (auto simp: settled_group_def zero_group_def evolves_asg_verdict evolves_fault split: option.splits)

lemma evolves_scaled_down: "evolves c c' \<Longrightarrow> scaled_down c0 c r n \<Longrightarrow> scaled_down c0 c' r n"
  using evolves_groups[of c c' r n]
  by (auto simp: scaled_down_def split: option.splits)

lemma evolves_origin: "evolves c0 c \<Longrightarrow> listed_group (regions c r) n = Some g \<Longrightarrow> origin c0 r g"
  using evolves_groups[of c0 c r n]
  by (cases "groups (regions c0 r) n") (auto simp: origin_def listed_group_def zero_group_def)

lemma listed_group_describes: "listed_group (regions c r) n = Some g \<Longrightarrow> describes c r g"
  by (auto simp: describes_def listed_group_def split: option.splits)

lemma listed_group_name: "listed_group rs n = Some g \<Longrightarrow> AutoScalingGroupName g = n"
  by (auto simp: listed_group_def split: option.splits)

lemma scale_down_step_evolves:
  assumes "scale_down_step (Client s r) region g (acc, c) = (res, (acc', c'))"
    and "describes c r g"
  shows "res = Inr () \<and> evolves c c'"
  using assms
  by (auto simp: scale_down_step_eq split: if_splits option.splits
      intro!: evolves_trans[OF evolves_with_calls evolves_update_effect])

lemma scale_down_step_calls:
  assumes "scale_down_step (Client s r) region g (acc, c) = (res, (acc', c'))"
    and "origin c0 r g" and "evolves c0 c"
    and "call \<in> set (new_calls c c')"
  shows "asg_sweep_call c0 r call"
  using assms
  by (auto simp: scale_down_step_eq new_calls_def evolves_asg_verdict origin_def
      split: if_splits option.splits)

lemma scale_down_step_acc:
  assumes "scale_down_step (Client s r) region g (acc, c) = (res, (acc', c'))"
    and "origin c0 r g" and "evolves c0 c"
  shows "acc' = acc \<or>
         (acc' = acc @ [in_region (AutoScalingGroupName g) region] \<and>
          scaled_down c0 c' r (AutoScalingGroupName g))"
  using assms evolves_groups[of c0 c r "AutoScalingGroupName g"]
  by (auto simp: scale_down_step_eq evolves_asg_verdict evolves_fault origin_def scaled_down_def
      update_effect_def zero_group_def split: if_splits option.splits)

lemma scale_down_step_settles:
  assumes "scale_down_step (Client s r) region g (acc, c) = (res, (acc', c'))"
    and "describes c r g"
  shows "settled_group c' r (AutoScalingGroupName g)"
  using assms
  by (auto simp: scale_down_step_eq describes_def settled_group_def update_effect_def asg_verdict_def
      split: if_splits option.splits)

lemma scale_loop_evolves:
  assumes "for_each gs (scale_down_step (Client s r) region) (acc, c) = (res, (acc', c'))"
    and "\<forall>g\<in>set gs. describes c r g"
  shows "res = Inr () \<and> evolves c c'"
  using assms
proof (induction gs arbitrary: acc c)
  case Nil
  then show ?case by (simp add: io_return_def)
next
  case (Cons g gs)
  obtain r1 acc1 c1 where step: "scale_down_step (Client s r) region g (acc, c) = (r1, (acc1, c1))"
    by (metis surj_pair)
  from Cons.prems(2) have d: "describes c r g" by simp
  from scale_down_step_evolves[OF step d] have r1: "r1 = Inr ()" and e1: "evolves c c1" by auto
  from Cons.prems(1) step r1
  have rest: "for_each gs (scale_down_step (Client s r) region) (acc1, c1) = (res, (acc', c'))"
    by (simp add: io_bind_def)
  from Cons.prems(2) e1 have "\<forall>g\<in>set gs. describes c1 r g" by (auto intro: evolves_describes)
  from Cons.IH[OF rest this] e1 show ?case by (auto intro: evolves_trans)
qed

lemma scale_loop_calls:
  assumes "for_each gs (scale_down_step (Client s r) region) (acc, c) = (res, (acc', c'))"
    and "\<forall>g\<in>set gs. describes c r g" and "\<forall>g\<in>set gs. origin c0 r g" and "evolves c0 c"
    and "call \<in> set (new_calls c c')"
  shows "asg_sweep_call c0 r call"
  using assms
proof (induction gs arbitrary: acc c)
  case Nil
  then show ?case by (simp add: io_return_def)
next
  case (Cons g gs)
  obtain r1 acc1 c1 where step: "scale_down_step (Client s r) region g (acc, c) = (r1, (acc1, c1))"
    by (metis surj_pair)
  from Cons.prems(2) have d: "describes c r g" by simp
  from Cons.prems(3) have o: "origin c0 r g" by simp
  from scale_down_step_evolves[OF step d] have r1: "r1 = Inr ()" and e1: "evolves c c1" by auto
  from Cons.prems(1) step r1
  have rest: "for_each gs (scale_down_step (Client s r) region) (acc1, c1) = (res, (acc', c'))"
    by (simp add: io_bind_def)
  from Cons.prems(2) e1 have d1: "\<forall>g\<in>set gs. describes c1 r g" by (auto intro: evolves_describes)
  from scale_loop_evolves[OF rest d1] have e2: "evolves c1 c'" by simp
  from Cons.prems(5) new_calls_trans[OF e1 e2]
  consider "call \<in> set (new_calls c c1)" | "call \<in> set (new_calls c1 c')" by auto
  then show ?case
  proof cases
    case 1
    from scale_down_step_calls[OF step o Cons.prems(4) 1] show ?thesis .
  next
    case 2
    have e0: "evolves c0 c1" using Cons.prems(4) e1 by (rule evolves_trans)
    from Cons.prems(3) have "\<forall>g\<in>set gs. origin c0 r g" by simp
    from Cons.IH[OF rest d1 this e0 2] show ?thesis .
  qed
qed

lemma scale_loop_acc:
  assumes "for_each gs (scale_down_step (Client s r) region) (acc, c) = (res, (acc', c'))"
    and "\<forall>g\<in>set gs. describes c r g" and "\<forall>g\<in>set gs. origin c0 r g" and "evolves c0 c"
  shows "\<exists>extra. acc' = acc @ extra \<and>
           (\<forall>z\<in>set extra. \<exists>g\<in>set gs. z = in_region (AutoScalingGroupName g) region \<and>
               scaled_down c0 c' r (AutoScalingGroupName g))"
  using assms
proof (induction gs arbitrary: acc c)
  case Nil
  then show ?case by (simp add: io_return_def)
next
  case (Cons g gs)
  obtain r1 acc1 c1 where step: "scale_down_step (Client s r) region g (acc, c) = (r1, (acc1, c1))"
    by (metis surj_pair)
  from Cons.prems(2) have d: "describes c r g" by simp
  from Cons.prems(3) have o: "origin c0 r g" by simp
  from scale_down_step_evolves[OF step d] have r1: "r1 = Inr ()" and e1: "evolves c c1" by auto
  from Cons.prems(1) step r1
  have rest: "for_each gs (scale_down_step (Client s r) region) (acc1, c1) = (res, (acc', c'))"
    by (simp add: io_bind_def)
  from Cons.prems(2) e1 have d1: "\<forall>g\<in>set gs. describes c1 r g" by (auto intro: evolves_describes)
  from scale_loop_evolves[OF rest d1] have e2: "evolves c1 c'" by simp
  have e0: "evolves c0 c1" using Cons.prems(4) e1 by (rule evolves_trans)
  from Cons.prems(3) have "\<forall>g\<in>set gs. origin c0 r g" by simp
  from Cons.IH[OF rest d1 this e0] obtain extra where ex: "acc' = acc1 @ extra"
    and exP: "\<forall>z\<in>set extra. \<exists>g\<in>set gs. z = in_region (AutoScalingGroupName g) region \<and>
               scaled_down c0 c' r (AutoScalingGroupName g)"
    by blast
  from scale_down_step_acc[OF step o Cons.prems(4)] show ?case
  proof
    assume "acc1 = acc"
    with ex exP show ?thesis by auto
  next
    assume a: "acc1 = acc @ [in_region (AutoScalingGroupName g) region] \<and>
          scaled_down c0 c1 r (AutoScalingGroupName g)"
    then have s': "scaled_down c0 c' r (AutoScalingGroupName g)"
      using e2 by (auto intro: evolves_scaled_down)
    from a ex have "acc' = acc @ (in_region (AutoScalingGroupName g) region # extra)" by simp
    moreover have "\<forall>z\<in>set (in_region (AutoScalingGroupName g) region # extra).
        \<exists>g'\<in>set (g # gs). z = in_region (AutoScalingGroupName g') region \<and>
               scaled_down c0 c' r (AutoScalingGroupName g')"
      using s' exP by auto
    ultimately show ?thesis by blast
  qed
qed

lemma scale_loop_settles:
  assumes "for_each gs (scale_down_step (Client s r) region) (acc, c) = (res, (acc', c'))"
    and "\<forall>g\<in>set gs. describes c r g"
    and "g \<in> set gs"
  shows "settled_group c' r (AutoScalingGroupName g)"
  using assms
proof (induction gs arbitrary: acc c)
  case Nil
  then show ?case by simp
next
  case (Cons g' gs)
  obtain r1 acc1 c1 where step: "scale_down_step (Client s r) region g' (acc, c) = (r1, (acc1, c1))"
    by (metis surj_pair)
  from Cons.prems(2) have d: "describes c r g'" by simp
  from scale_down_step_evolves[OF step d] have r1: "r1 = Inr ()" and e1: "evolves c c1" by auto
  from Cons.prems(1) step r1
  have rest: "for_each gs (scale_down_step (Client s r) region) (acc1, c1) = (res, (acc', c'))"
    by (simp add: io_bind_def)
  from Cons.prems(2) e1 have d1: "\<forall>g\<in>set gs. describes c1 r g" by (auto intro: evolves_describes)
  from scale_loop_evolves[OF rest d1] have e2: "evolves c1 c'" by simp
  show ?case
  proof (cases "g = g'")
    case True
    from scale_down_step_settles[OF step d] True e2 show ?thesis
      by (auto intro: evolves_settled_group)
  next
    case False
    with Cons.prems(3) have "g \<in> set gs" by simp
    from Cons.IH[OF rest d1 this] show ?thesis .
  qed
qed

lemma new_calls_after_with_calls:
  "evolves (with_calls new c) c' \<Longrightarrow> new_calls c c' = new @ new_calls (with_calls new c) c'"
  by (auto simp: evolves_def new_calls_def)

lemma evolves_after_with_calls: "evolves (with_calls new c) c' \<Longrightarrow> evolves c c'"
  by (rule evolves_trans[OF evolves_with_calls])

lemma scale_down_page_eq:
  "scale_down_page (Client s r) region k (acc, c) =
     (case fault c (DescribeAutoScalingGroups r k) of
        Some e \<Rightarrow> (Inl e, (acc, with_calls [DescribeAutoScalingGroups r k] c))
      | None \<Rightarrow> for_each (fetched_page c r k) (scale_down_step (Client s r) region)
                  (acc, with_calls [DescribeAutoScalingGroups r k] c))"
  by (simp add: scale_down_page_def next_page_def api_apply io_bind_def io_lift_def fetched_page_def
      split: option.splits)

lemma fetched_page_describes: "g \<in> set (fetched_page c r k) \<Longrightarrow> describes c r g"
  by (auto simp: fetched_page_def set_map_filter dest: listed_group_describes)

lemma fetched_page_origin: "evolves c0 c \<Longrightarrow> g \<in> set (fetched_page c r k) \<Longrightarrow> origin c0 r g"
  by (auto simp: fetched_page_def set_map_filter dest: evolves_origin)

lemma fetched_page_name:
  "g \<in> set (fetched_page c r k) \<Longrightarrow> AutoScalingGroupName g \<in> set (asg_pages (regions c r) ! k)"
  by (auto simp: fetched_page_def set_map_filter dest: listed_group_name)

lemma scale_down_page_evolves:
  assumes "scale_down_page (Client s r) region k (acc, c) = (res, (acc', c'))"
  shows "evolves c c'"
proof (cases "fault c (DescribeAutoScalingGroups r k)")
  case (Some e)
  with assms show ?thesis by (auto simp: scale_down_page_eq)
next
  case None
  with assms have loop: "for_each (fetched_page c r k) (scale_down_step (Client s r) region)
                  (acc, with_calls [DescribeAutoScalingGroups r k] c) = (res, (acc', c'))"
    by (simp add: scale_down_page_eq)
  have "\<forall>g\<in>set (fetched_page c r k). describes (with_calls [DescribeAutoScalingGroups r k] c) r g"
    by (simp add: fetched_page_describes)
  from scale_loop_evolves[OF loop this] show ?thesis by (auto intro: evolves_after_with_calls)
qed

lemma scale_down_page_outcome:
  assumes "scale_down_page (Client s r) region k (acc, c) = (res, (acc', c'))"
  shows "res = (case fault c (DescribeAutoScalingGroups r k) of Some e \<Rightarrow> Inl e | None \<Rightarrow> Inr ())"
proof (cases "fault c (DescribeAutoScalingGroups r k)")
  case (Some e)
  with assms show ?thesis by (auto simp: scale_down_page_eq)
next
  case None
  with assms have loop: "for_each (fetched_page c r k) (scale_down_step (Client s r) region)
                  (acc, with_calls [DescribeAutoScalingGroups r k] c) = (res, (acc', c'))"
    by (simp add: scale_down_page_eq)
  have "\<forall>g\<in>set (fetched_page c r k). describes (with_calls [DescribeAutoScalingGroups r k] c) r g"
    by (simp add: fetched_page_describes)
  from scale_loop_evolves[OF loop this] None show ?thesis by simp
qed

lemma scale_down_page_calls:
  assumes "scale_down_page (Client s r) region k (acc, c) = (res, (acc', c'))"
    and "evolves c0 c" and "call \<in> set (new_calls c c')"
  shows "asg_sweep_call c0 r call"
proof (cases "fault c (DescribeAutoScalingGroups r k)")
  case (Some e)
  with assms show ?thesis by (auto simp: scale_down_page_eq)
next
  case None
  let ?c1 = "with_calls [DescribeAutoScalingGroups r k] c"
  from None assms have loop: "for_each (fetched_page c r k) (scale_down_step (Client s r) region)
                  (acc, ?c1) = (res, (acc', c'))"
    by (simp add: scale_down_page_eq)
  have d: "\<forall>g\<in>set (fetched_page c r k). describes ?c1 r g"
    by (simp add: fetched_page_describes)
  have o: "\<forall>g\<in>set (fetched_page c r k). origin c0 r g"
    using assms(2) by (auto intro: fetched_page_origin)
  have e0: "evolves c0 ?c1" using assms(2) evolves_with_calls by (rule evolves_trans)
  from scale_loop_evolves[OF loop d] have "evolves ?c1 c'" by simp
  from new_calls_after_with_calls[OF this] assms(3)
  consider "call = DescribeAutoScalingGroups r k" | "call \<in> set (new_calls ?c1 c')" by auto
  then show ?thesis
  proof cases
    case 1
    then show ?thesis by simp
  next
    case 2
    from scale_loop_calls[OF loop d o e0 2] show ?thesis .
  qed
qed

lemma scale_down_page_acc:
  assumes "scale_down_page (Client s r) region k (acc, c) = (res, (acc', c'))"
    and "evolves c0 c"
  shows "\<exists>extra. acc' = acc @ extra \<and>
           (\<forall>z\<in>set extra. fault c (DescribeAutoScalingGroups r k) = None \<and>
              (\<exists>n\<in>set (asg_pages (regions c r) ! k). z = in_region n region \<and> scaled_down c0 c' r n))"
proof (cases "fault c (DescribeAutoScalingGroups r k)")
  case (Some e)
  with assms show ?thesis by (auto simp: scale_down_page_eq)
next
  case None
  let ?c1 = "with_calls [DescribeAutoScalingGroups r k] c"
  from None assms have loop: "for_each (fetched_page c r k) (scale_down_step (Client s r) region)
                  (acc, ?c1) = (res, (acc', c'))"
    by (simp add: scale_down_page_eq)
  have d: "\<forall>g\<in>set (fetched_page c r k). describes ?c1 r g"
    by (simp add: fetched_page_describes)
  have o: "\<forall>g\<in>set (fetched_page c r k). origin c0 r g"
    using assms(2) by (auto intro: fetched_page_origin)
  have e0: "evolves c0 ?c1" using assms(2) evolves_with_calls by (rule evolves_trans)
  from scale_loop_acc[OF loop d o e0] obtain extra where ex: "acc' = acc @ extra"
    and exP: "\<forall>z\<in>set extra. \<exists>g\<in>set (fetched_page c r k). z = in_region (AutoScalingGroupName g) region \<and>
               scaled_down c0 c' r (AutoScalingGroupName g)"
    by blast
  from exP have "\<forall>z\<in>set extra. \<exists>n\<in>set (asg_pages (regions c r) ! k). z = in_region n region \<and> scaled_down c0 c' r n"
    by (meson fetched_page_name)
  with ex None show ?thesis by blast
qed

lemma scale_down_page_settles:
  assumes "scale_down_page (Client s r) region k (acc, c) = (res, (acc', c'))"
    and "fault c (DescribeAutoScalingGroups r k) = None"
    and "n \<in> set (asg_pages (regions c r) ! k)"
  shows "settled_group c' r n"
proof -
  let ?c1 = "with_calls [DescribeAutoScalingGroups r k] c"
  from assms have loop: "for_each (fetched_page c r k) (scale_down_step (Client s r) region)
                  (acc, ?c1) = (res, (acc', c'))"
    by (simp add: scale_down_page_eq)
  have d: "\<forall>g\<in>set (fetched_page c r k). describes ?c1 r g"
    by (simp add: fetched_page_describes)
  from scale_loop_evolves[OF loop d] have e: "evolves ?c1 c'" by simp
  show ?thesis
  proof (cases "listed_group (regions c r) n")
    case None
    then have "groups (regions c r) n = None" by (simp add: listed_group_def split: option.splits)
    then have "settled_group ?c1 r n" by (simp add: settled_group_def)
    with e show ?thesis by (rule evolves_settled_group)
  next
    case (Some g)
    with assms(3) have g: "g \<in> set (fetched_page c r k)"
      by (auto simp: fetched_page_def set_map_filter)
    from scale_loop_settles[OF loop d g] listed_group_name[OF Some] show ?thesis by simp
  qed
qed

lemma evolves_asg_pages: "evolves c c' \<Longrightarrow> asg_pages (regions c' r) = asg_pages (regions c r)"
  by (simp add: evolves_def)

lemma evolves_reservations: "evolves c c' \<Longrightarrow> reservations (regions c' r) = reservations (regions c r)"
  by (simp add: evolves_def)

lemma evolves_environ: "evolves c c' \<Longrightarrow> environ c' = environ c"
  by (simp add: evolves_def)

lemma evolves_reached_pages: "evolves c c' \<Longrightarrow> reached_pages c' r ks = reached_pages c r ks"
  by (simp add: reached_pages_def evolves_fault)

lemma pages_loop_evolves:
  "for_each ks (scale_down_page (Client s r) region) (acc, c) = (res, (acc', c')) \<Longrightarrow> evolves c c'"
proof (induction ks arbitrary: acc c)
  case Nil
  then show ?case by (simp add: io_return_def)
next
  case (Cons k ks)
  obtain r1 acc1 c1 where step: "scale_down_page (Client s r) region k (acc, c) = (r1, (acc1, c1))"
    by (metis surj_pair)
  from scale_down_page_evolves[OF step] have e1: "evolves c c1" .
  show ?case
  proof (cases r1)
    case (Inl e)
    with Cons.prems step e1 show ?thesis by (simp add: io_bind_def)
  next
    case (Inr u)
    with Cons.prems step
    have rest: "for_each ks (scale_down_page (Client s r) region) (acc1, c1) = (res, (acc', c'))"
      by (simp add: io_bind_def)
    from Cons.IH[OF rest] e1 show ?thesis by (auto intro: evolves_trans)
  qed
qed

lemma pages_loop_calls:
  assumes "for_each ks (scale_down_page (Client s r) region) (acc, c) = (res, (acc', c'))"
    and "evolves c0 c" and "call \<in> set (new_calls c c')"
  shows "asg_sweep_call c0 r call"
  using assms
proof (induction ks arbitrary: acc c)
  case Nil
  then show ?case by (simp add: io_return_def)
next
  case (Cons k ks)
  obtain r1 acc1 c1 where step: "scale_down_page (Client s r) region k (acc, c) = (r1, (acc1, c1))"
    by (metis surj_pair)
  from scale_down_page_evolves[OF step] have e1: "evolves c c1" .
  show ?case
  proof (cases r1)
    case (Inl e)
    with Cons.prems(1) step have "c' = c1" by (simp add: io_bind_def)
    with Cons.prems(3) scale_down_page_calls[OF step Cons.prems(2)] show ?thesis by simp
  next
    case (Inr u)
    with Cons.prems(1) step
    have rest: "for_each ks (scale_down_page (Client s r) region) (acc1, c1) = (res, (acc', c'))"
      by (simp add: io_bind_def)
    from pages_loop_evolves[OF rest] have e2: "evolves c1 c'" .
    from Cons.prems(3) new_calls_trans[OF e1 e2]
    consider "call \<in> set (new_calls c c1)" | "call \<in> set (new_calls c1 c')" by auto
    then show ?thesis
    proof cases
      case 1
      from scale_down_page_calls[OF step Cons.prems(2) 1] show ?thesis .
    next
      case 2
      have "evolves c0 c1" using Cons.prems(2) e1 by (rule evolves_trans)
      from Cons.IH[OF rest this 2] show ?thesis .
    qed
  qed
qed

lemma pages_loop_acc:
  assumes "for_each ks (scale_down_page (Client s r) region) (acc, c) = (res, (acc', c'))"
    and "evolves c0 c"
  shows "\<exists>extra. acc' = acc @ extra \<and>
           (\<forall>z\<in>set extra. \<exists>k\<in>set (reached_pages c r ks). \<exists>n\<in>set (asg_pages (regions c r) ! k).
               z = in_region n region \<and> scaled_down c0 c' r n)"
  using assms
proof (induction ks arbitrary: acc c)
  case Nil
  then show ?case by (simp add: io_return_def)
next
  case (Cons k ks)
  obtain r1 acc1 c1 where step: "scale_down_page (Client s r) region k (acc, c) = (r1, (acc1, c1))"
    by (metis surj_pair)
  from scale_down_page_evolves[OF step] have e1: "evolves c c1" .
  from scale_down_page_acc[OF step Cons.prems(2)] obtain extra1 where ex1: "acc1 = acc @ extra1"
    and ex1P: "\<forall>z\<in>set extra1. fault c (DescribeAutoScalingGroups r k) = None \<and>
              (\<exists>n\<in>set (asg_pages (regions c r) ! k). z = in_region n region \<and> scaled_down c0 c1 r n)"
    by blast
  show ?case
  proof (cases r1)
    case (Inl e)
    with Cons.prems(1) step have eq: "c' = c1" "acc' = acc1" by (simp_all add: io_bind_def)
    from ex1P eq have "\<forall>z\<in>set extra1. \<exists>k'\<in>set (reached_pages c r (k # ks)).
        \<exists>n\<in>set (asg_pages (regions c r) ! k'). z = in_region n region \<and> scaled_down c0 c' r n"
      by (auto simp: reached_pages_def)
    with ex1 eq show ?thesis by blast
  next
    case (Inr u)
    with Cons.prems(1) step
    have rest: "for_each ks (scale_down_page (Client s r) region) (acc1, c1) = (res, (acc', c'))"
      by (simp add: io_bind_def)
    from scale_down_page_outcome[OF step] Inr have ok: "fault c (DescribeAutoScalingGroups r k) = None"
      by (auto split: option.splits)
    from pages_loop_evolves[OF rest] have e2: "evolves c1 c'" .
    have e0: "evolves c0 c1" using Cons.prems(2) e1 by (rule evolves_trans)
    from Cons.IH[OF rest e0] obtain extra2 where ex2: "acc' = acc1 @ extra2"
      and ex2P: "\<forall>z\<in>set extra2. \<exists>k\<in>set (reached_pages c1 r ks). \<exists>n\<in>set (asg_pages (regions c1 r) ! k).
               z = in_region n region \<and> scaled_down c0 c' r n"
      by blast
    have rp: "reached_pages c r (k # ks) = k # reached_pages c r ks"
      using ok by (simp add: reached_pages_def)
    have a: "\<forall>z\<in>set extra1. \<exists>k'\<in>set (reached_pages c r (k # ks)).
        \<exists>n\<in>set (asg_pages (regions c r) ! k'). z = in_region n region \<and> scaled_down c0 c' r n"
    proof (intro ballI)
      fix z assume "z \<in> set extra1"
      with ex1P obtain n where n: "n \<in> set (asg_pages (regions c r) ! k)" "z = in_region n region"
        "scaled_down c0 c1 r n" by blast
      from evolves_scaled_down[OF e2 n(3)] n(1,2) rp
      show "\<exists>k'\<in>set (reached_pages c r (k # ks)).
        \<exists>n\<in>set (asg_pages (regions c r) ! k'). z = in_region n region \<and> scaled_down c0 c' r n"
        by auto
    qed
    have b: "\<forall>z\<in>set extra2. \<exists>k'\<in>set (reached_pages c r (k # ks)).
        \<exists>n\<in>set (asg_pages (regions c r) ! k'). z = in_region n region \<and> scaled_down c0 c' r n"
      using ex2P rp evolves_reached_pages[OF e1] evolves_asg_pages[OF e1] by auto
    from ex1 ex2 have "acc' = acc @ (extra1 @ extra2)" by simp
    moreover from a b have "\<forall>z\<in>set (extra1 @ extra2). \<exists>k'\<in>set (reached_pages c r (k # ks)).
        \<exists>n\<in>set (asg_pages (regions c r) ! k'). z = in_region n region \<and> scaled_down c0 c' r n"
      by auto
    ultimately show ?thesis by blast
  qed
qed

lemma pages_loop_settles:
  assumes "for_each ks (scale_down_page (Client s r) region) (acc, c) = (res, (acc', c'))"
    and "k \<in> set (reached_pages c r ks)" and "n \<in> set (asg_pages (regions c r) ! k)"
  shows "settled_group c' r n"
  using assms
proof (induction ks arbitrary: acc c)
  case Nil
  then show ?case by (simp add: reached_pages_def)
next
  case (Cons k' ks)
  obtain r1 acc1 c1 where step: "scale_down_page (Client s r) region k' (acc, c) = (r1, (acc1, c1))"
    by (metis surj_pair)
  from scale_down_page_evolves[OF step] have e1: "evolves c c1" .
  from Cons.prems(2) have ok: "fault c (DescribeAutoScalingGroups r k') = None"
    by (auto simp: reached_pages_def split: if_splits)
  with scale_down_page_outcome[OF step] have "r1 = Inr ()" by simp
  with Cons.prems(1) step
  have rest: "for_each ks (scale_down_page (Client s r) region) (acc1, c1) = (res, (acc', c'))"
    by (simp add: io_bind_def)
  from pages_loop_evolves[OF rest] have e2: "evolves c1 c'" .
  from Cons.prems(2) ok consider "k = k'" | "k \<in> set (reached_pages c r ks)"
    by (auto simp: reached_pages_def)
  then show ?case
  proof cases
    case 1
    with scale_down_page_settles[OF step ok] Cons.prems(3) have "settled_group c1 r n" by simp
    with e2 show ?thesis by (rule evolves_settled_group)
  next
    case 2
    then have "k \<in> set (reached_pages c1 r ks)" using evolves_reached_pages[OF e1] by simp
    moreover have "n \<in> set (asg_pages (regions c1 r) ! k)"
      using Cons.prems(3) evolves_asg_pages[OF e1] by simp
    ultimately show ?thesis using Cons.IH[OF rest] by blast
  qed
qed

lemma scale_down_asgs_eq:
  "scale_down_asgs (Client s r) region c =
     (case for_each [0 ..< length (asg_pages (regions c r))] (scale_down_page (Client s r) region) ([], c) of
        (res, (acc, c')) \<Rightarrow> (Inr acc, c'))"
  by (simp add: scale_down_asgs_def paginate_def run_local_def io_try_def io_bind_def io_lift_def
      io_return_def split: prod.splits sum.splits)

section \<open>The two sweepers as a whole\<close>

lemma listed_instance_id: "listed_instance rs f i = Some x \<Longrightarrow> InstanceId x = i"
  by (auto simp: listed_instance_def split: option.splits if_splits)

lemma running_listing_listed:
  assumes "x \<in> set (running_listing c r)"
  shows "\<exists>res\<in>set (reservations (regions c r)). InstanceId x \<in> set res"
proof -
  from assms obtain res i where "res \<in> set (reservations (regions c r))" "i \<in> set res"
    "listed_instance (regions c r) [''running''] i = Some x"
    by (auto simp: running_listing_def set_map_filter)
  with listed_instance_id[OF this(3)] show ?thesis by auto
qed

lemma stop_idle_instances_evolves:
  assumes "stop_idle_instances (Client s r) region c = (res, c')"
  shows "evolves c c'"
proof (cases "fault c (DescribeInstances r [''running''])")
  case (Some e)
  with assms show ?thesis by (auto simp: stop_idle_instances_eq)
next
  case None
  obtain res1 acc1 c1 where loop: "for_each (running_listing c r) (stop_instance_step (Client s r) region)
      ([], with_calls [DescribeInstances r [''running'']] c) = (res1, (acc1, c1))"
    by (metis surj_pair)
  with None assms have "c' = c1" by (simp add: stop_idle_instances_eq)
  with stop_loop_evolves[OF loop] show ?thesis by (auto intro: evolves_after_with_calls)
qed

lemma stop_idle_instances_calls:
  assumes "stop_idle_instances (Client s r) region c = (res, c')"
    and "call \<in> set (new_calls c c')"
  shows "ec2_sweep_call c r call"
proof (cases "fault c (DescribeInstances r [''running''])")
  case (Some e)
  with assms show ?thesis by (auto simp: stop_idle_instances_eq)
next
  case None
  let ?c1 = "with_calls [DescribeInstances r [''running'']] c"
  obtain res1 acc1 c1 where loop: "for_each (running_listing c r) (stop_instance_step (Client s r) region)
      ([], ?c1) = (res1, (acc1, c1))"
    by (metis surj_pair)
  with None assms(1) have c': "c' = c1" by (simp add: stop_idle_instances_eq)
  from stop_loop_evolves[OF loop] have e: "evolves ?c1 c1" by simp
  from new_calls_after_with_calls[OF e] assms(2) c'
  consider "call = DescribeInstances r [''running'']" | "call \<in> set (new_calls ?c1 c1)" by auto
  then show ?thesis
  proof cases
    case 1
    then show ?thesis by simp
  next
    case 2
    have "\<forall>x\<in>set (running_listing c r). running c r (InstanceId x)"
      by (simp add: running_listing_running)
    from stop_loop_calls[OF loop this evolves_with_calls 2] show ?thesis .
  qed
qed

lemma stop_idle_instances_result:
  assumes "stop_idle_instances (Client s r) region c = (Inr stopped, c')"
    and "z \<in> set stopped"
  shows "\<exists>i. z = in_region i region \<and> running c r i \<and> \<not> instance_verdict c r i \<and>
           fault c (StopInstances r [i]) = None \<and>
           fault c (DescribeInstances r [''running'']) = None \<and>
           (\<exists>res\<in>set (reservations (regions c r)). i \<in> set res)"
proof (cases "fault c (DescribeInstances r [''running''])")
  case (Some e)
  with assms show ?thesis by (auto simp: stop_idle_instances_eq)
next
  case None
  let ?c1 = "with_calls [DescribeInstances r [''running'']] c"
  obtain res1 acc1 c1 where loop: "for_each (running_listing c r) (stop_instance_step (Client s r) region)
      ([], ?c1) = (res1, (acc1, c1))"
    by (metis surj_pair)
  with None assms(1) have "stopped = acc1" by (simp add: stop_idle_instances_eq)
  with stop_loop_acc[OF loop] assms(2) obtain y where y: "y \<in> set (running_listing c r)"
    "z = in_region (InstanceId y) region" "\<not> instance_verdict ?c1 r (InstanceId y)"
    "fault ?c1 (StopInstances r [InstanceId y]) = None"
    by auto
  from y(3) have "\<not> instance_verdict c r (InstanceId y)"
    by (simp add: evolves_instance_verdict[OF evolves_with_calls])
  with y None running_listing_running[OF y(1)] running_listing_listed[OF y(1)]
  show ?thesis by auto
qed

lemma stop_idle_instances_settles:
  assumes "stop_idle_instances (Client s r) region c = (res, c')"
  shows "ec2_settled c' r"
proof (cases "fault c (DescribeInstances r [''running''])")
  case (Some e)
  with assms show ?thesis by (auto simp: stop_idle_instances_eq ec2_settled_def)
next
  case None
  let ?c1 = "with_calls [DescribeInstances r [''running'']] c"
  obtain res1 acc1 c1 where loop: "for_each (running_listing c r) (stop_instance_step (Client s r) region)
      ([], ?c1) = (res1, (acc1, c1))"
    by (metis surj_pair)
  with None assms(1) have c': "c' = c1" by (simp add: stop_idle_instances_eq)
  from stop_idle_instances_evolves[OF assms] have e: "evolves c c'" .
  have "instance_verdict c' r i \<or> fault c' (StopInstances r [i]) \<noteq> None"
    if res: "res \<in> set (reservations (regions c' r))" and i: "i \<in> set res" and run: "running c' r i"
    for res i
  proof -
    from res evolves_reservations[OF e] have res0: "res \<in> set (reservations (regions c r))" by simp
    from evolves_running[OF e run] have "running c r i" .
    from running_listing_complete[OF res0 i this] obtain x where
      x: "x \<in> set (running_listing c r)" "InstanceId x = i" by blast
    from stop_loop_settles[OF loop x(1)] x(2) run c'
    have "instance_verdict ?c1 r i \<or> fault ?c1 (StopInstances r [i]) \<noteq> None" by auto
    then show ?thesis
      by (simp add: evolves_instance_verdict[OF e] evolves_fault[OF e]
          evolves_instance_verdict[OF evolves_with_calls])
  qed
  then show ?thesis by (auto simp: ec2_settled_def)
qed

lemma evolves_ec2_settled:
  assumes e: "evolves c c'" and "ec2_settled c r"
  shows "ec2_settled c' r"
  using assms(2) evolves_running[OF e, of r]
  unfolding ec2_settled_def evolves_fault[OF e] evolves_reservations[OF e]
    evolves_instance_verdict[OF e]
  by blast

lemma evolves_asg_settled: "evolves c c' \<Longrightarrow> asg_settled c r \<Longrightarrow> asg_settled c' r"
  unfolding asg_settled_def
  by (auto simp: evolves_reached_pages evolves_asg_pages intro: evolves_settled_group)

lemma evolves_region_settled: "evolves c c' \<Longrightarrow> region_settled c r \<Longrightarrow> region_settled c' r"
  unfolding region_settled_def
  by (auto simp: evolves_fault intro: evolves_ec2_settled evolves_asg_settled)

lemma stop_idle_instances_idle:
  assumes "stop_idle_instances (Client s r) region c = (Inr stopped, c')"
    and "ec2_settled c r"
  shows "stopped = []"
proof (rule ccontr)
  assume "stopped \<noteq> []"
  then obtain z where "z \<in> set stopped" by (cases stopped) auto
  from stop_idle_instances_result[OF assms(1) this] assms(2) show False
    unfolding ec2_settled_def by blast
qed

lemma scale_down_asgs_evolves:
  assumes "scale_down_asgs (Client s r) region c = (res, c')"
  shows "evolves c c'"
proof -
  obtain res1 acc1 c1 where loop: "for_each [0 ..< length (asg_pages (regions c r))]
      (scale_down_page (Client s r) region) ([], c) = (res1, (acc1, c1))"
    by (metis surj_pair)
  with assms have "c' = c1" by (simp add: scale_down_asgs_eq)
  with pages_loop_evolves[OF loop] show ?thesis by simp
qed

lemma scale_down_asgs_calls:
  assumes "scale_down_asgs (Client s r) region c = (res, c')"
    and "call \<in> set (new_calls c c')"
  shows "asg_sweep_call c r call"
proof -
  obtain res1 acc1 c1 where loop: "for_each [0 ..< length (asg_pages (regions c r))]
      (scale_down_page (Client s r) region) ([], c) = (res1, (acc1, c1))"
    by (metis surj_pair)
  with assms have "c' = c1" by (simp add: scale_down_asgs_eq)
  with pages_loop_calls[OF loop evolves_refl] assms(2) show ?thesis by simp
qed

lemma scale_down_asgs_result:
  assumes "scale_down_asgs (Client s r) region c = (Inr scaled, c')"
    and "z \<in> set scaled"
  shows "\<exists>k\<in>set (reached_pages c r [0 ..< length (asg_pages (regions c r))]).
           \<exists>n\<in>set (asg_pages (regions c r) ! k). z = in_region n region \<and> scaled_down c c' r n"
proof -
  obtain res1 acc1 c1 where loop: "for_each [0 ..< length (asg_pages (regions c r))]
      (scale_down_page (Client s r) region) ([], c) = (res1, (acc1, c1))"
    by (metis surj_pair)
  with assms have "c' = c1" "scaled = acc1" by (simp_all add: scale_down_asgs_eq)
  with pages_loop_acc[OF loop evolves_refl] assms(2) show ?thesis by auto
qed

lemma scale_down_asgs_settles:
  assumes "scale_down_asgs (Client s r) region c = (res, c')"
  shows "asg_settled c' r"
proof -
  obtain res1 acc1 c1 where loop: "for_each [0 ..< length (asg_pages (regions c r))]
      (scale_down_page (Client s r) region) ([], c) = (res1, (acc1, c1))"
    by (metis surj_pair)
  with assms have c': "c' = c1" by (simp add: scale_down_asgs_eq)
  from pages_loop_evolves[OF loop] have e: "evolves c c1" .
  show ?thesis
    unfolding asg_settled_def c'
    using pages_loop_settles[OF loop]
    by (auto simp: evolves_reached_pages[OF e] evolves_asg_pages[OF e])
qed

lemma scale_down_asgs_idle:
  assumes "scale_down_asgs (Client s r) region c = (Inr scaled, c')"
    and "asg_settled c r"
  shows "scaled = []"
proof (rule ccontr)
  assume "scaled \<noteq> []"
  then obtain z where "z \<in> set scaled" by (cases scaled) auto
  from scale_down_asgs_result[OF assms(1) this] obtain k n where
    k: "k \<in> set (reached_pages c r [0 ..< length (asg_pages (regions c r))])"
    and n: "n \<in> set (asg_pages (regions c r) ! k)" and sd: "scaled_down c c' r n" by blast
  from assms(2) k n have "settled_group c r n" by (auto simp: asg_settled_def)
  with sd show False
    by (auto simp: settled_group_def scaled_down_def split: option.splits)
qed

section \<open>The orchestrator as a whole\<close>

lemma process_region_cases:
  obtains (no_ec2) e where "fault c (CreateClient ''ec2'' region) = Some e"
      "process_region region c = (Inl e, with_calls [CreateClient ''ec2'' region] c)"
  | (no_autoscaling) e where "fault c (CreateClient ''ec2'' region) = None"
      "fault c (CreateClient ''autoscaling'' region) = Some e"
      "process_region region c = (Inl e, with_clients region c)"
  | (swept) stopped c1 scaled c2 where "fault c (CreateClient ''ec2'' region) = None"
      "fault c (CreateClient ''autoscaling'' region) = None"
      "stop_idle_instances (Client ''ec2'' region) region (with_clients region c) = (Inr stopped, c1)"
      "scale_down_asgs (Client ''autoscaling'' region) region c1 = (Inr scaled, c2)"
      "process_region region c =
         (Inr \<lparr>stopped_instances = stopped, scaled_down_asgs = scaled, errors = []\<rparr>, c2)"
proof (cases "fault c (CreateClient ''ec2'' region)")
  case (Some e)
  with no_ec2 show ?thesis by (simp add: process_region_fail_ec2)
next
  case None
  show ?thesis
  proof (cases "fault c (CreateClient ''autoscaling'' region)")
    case (Some e)
    with None no_autoscaling show ?thesis by (simp add: process_region_fail_autoscaling)
  next
    case ok: None
    obtain stopped c1 where
      s1: "stop_idle_instances (Client ''ec2'' region) region (with_clients region c) = (Inr stopped, c1)"
      using stop_idle_instances_returns by blast
    obtain scaled c2 where
      s2: "scale_down_asgs (Client ''autoscaling'' region) region c1 = (Inr scaled, c2)"
      using scale_down_asgs_returns by blast
    from swept[OF None ok s1 s2 process_region_ok[OF None ok s1 s2]] show ?thesis .
  qed
qed

lemma evolves_with_clients [simp]: "evolves c (with_clients region c)"
  by (simp add: with_clients_def)

lemma with_clients_simps [simp]:
  "environ (with_clients region c) = environ c"
  "regions (with_clients region c) = regions c"
  "fault (with_clients region c) = fault c"
  by (simp_all add: with_clients_def)

lemma process_region_evolves:
  assumes "process_region region c = (res, c')"
  shows "evolves c c'"
proof (cases rule: process_region_cases[of c region])
  case (no_ec2 e)
  with assms show ?thesis by auto
next
  case (no_autoscaling e)
  with assms show ?thesis by auto
next
  case (swept stopped c1 scaled c2)
  from stop_idle_instances_evolves[OF swept(3)] scale_down_asgs_evolves[OF swept(4)]
  have "evolves c c2" by (blast intro: evolves_trans evolves_with_clients)
  with swept(5) assms show ?thesis by simp
qed

lemma process_region_errors:
  assumes "process_region region c = (Inr result, c')"
  shows "errors result = []"
  using assms by (cases rule: process_region_cases[of c region]) auto

lemma running_with_calls [simp]: "running (with_calls new c) r i = running c r i"
  by (simp add: running_def)

lemma instance_verdict_with_calls [simp]:
  "instance_verdict (with_calls new c) r i = instance_verdict c r i"
  by (simp add: instance_verdict_def)

lemma asg_verdict_with_calls [simp]: "asg_verdict (with_calls new c) r n = asg_verdict c r n"
  by (simp add: asg_verdict_def)

lemma ec2_sweep_call_with_clients [simp]:
  "ec2_sweep_call (with_clients region c) r call = ec2_sweep_call c r call"
  by (cases call) (simp_all add: with_clients_def split: list.splits)

lemma evolves_asg_sweep_call:
  assumes "evolves c c1" and "asg_sweep_call c1 r call"
  shows "asg_sweep_call c r call"
proof (cases call)
  case (UpdateAutoScalingGroup r' n mn mx d)
  with assms(2) evolves_groups[OF assms(1), of r n] show ?thesis
    by (cases "groups (regions c r) n")
      (auto simp: evolves_asg_verdict[OF assms(1)] zero_group_def split: option.splits)
qed (use assms(2) in simp_all)

lemma evolves_scaled_down_origin:
  assumes "evolves c c1" and "scaled_down c1 c2 r n"
  shows "scaled_down c c2 r n"
  using assms(2) evolves_groups[OF assms(1), of r n]
  by (cases "groups (regions c r) n")
    (auto simp: scaled_down_def evolves_asg_verdict[OF assms(1)] evolves_fault[OF assms(1)]
      zero_group_def split: option.splits)

text \<open>The calls of one run of the orchestrator, in four groups.\<close>

lemma process_region_calls:
  assumes "process_region region c = (res, c')" and "call \<in> set (new_calls c c')"
  shows "call = CreateClient ''ec2'' region \<or> call = CreateClient ''autoscaling'' region \<or>
         ec2_sweep_call c region call \<or> asg_sweep_call c region call"
proof (cases rule: process_region_cases[of c region])
  case (no_ec2 e)
  with assms show ?thesis by auto
next
  case (no_autoscaling e)
  with assms show ?thesis by (auto simp: with_clients_def)
next
  case (swept stopped c1 scaled c2)
  let ?c0 = "with_clients region c"
  from swept(5) assms(1) have c': "c' = c2" by simp
  from stop_idle_instances_evolves[OF swept(3)] have e1: "evolves ?c0 c1" .
  from scale_down_asgs_evolves[OF swept(4)] have e2: "evolves c1 c2" .
  have e01: "evolves c c1" using evolves_with_clients e1 by (rule evolves_trans)
  have "new_calls c c2 = new_calls c ?c0 @ new_calls ?c0 c1 @ new_calls c1 c2"
    using new_calls_trans[OF evolves_with_clients evolves_trans[OF e1 e2]]
      new_calls_trans[OF e1 e2] by simp
  with assms(2) c' consider "call \<in> set (new_calls c ?c0)" | "call \<in> set (new_calls ?c0 c1)"
    | "call \<in> set (new_calls c1 c2)" by auto
  then show ?thesis
  proof cases
    case 1
    then show ?thesis by (auto simp: with_clients_def)
  next
    case 2
    from stop_idle_instances_calls[OF swept(3) 2] show ?thesis by simp
  next
    case 3
    from evolves_asg_sweep_call[OF e01 scale_down_asgs_calls[OF swept(4) 3]] show ?thesis by simp
  qed
qed

lemma process_region_stopped:
  assumes "process_region region c = (Inr result, c')" and "z \<in> set (stopped_instances result)"
  shows "\<exists>i. z = in_region i region \<and> running c region i \<and> \<not> instance_verdict c region i \<and>
           fault c (StopInstances region [i]) = None"
proof (cases rule: process_region_cases[of c region])
  case (swept stopped c1 scaled c2)
  with assms have "z \<in> set stopped" by auto
  from stop_idle_instances_result[OF swept(3) this] show ?thesis
    by (auto simp: with_clients_def running_def instance_verdict_def)
qed (use assms in auto)

lemma process_region_scaled:
  assumes "process_region region c = (Inr result, c')" and "z \<in> set (scaled_down_asgs result)"
  shows "\<exists>n. z = in_region n region \<and> scaled_down c c' region n"
proof (cases rule: process_region_cases[of c region])
  case (swept stopped c1 scaled c2)
  with assms have z: "z \<in> set scaled" and c': "c' = c2" by auto
  from stop_idle_instances_evolves[OF swept(3)]
  have e01: "evolves c c1" by (rule evolves_trans[OF evolves_with_clients])
  from scale_down_asgs_result[OF swept(4) z] obtain n where
    "z = in_region n region" "scaled_down c1 c2 region n" by blast
  with evolves_scaled_down_origin[OF e01] c' show ?thesis by blast
qed (use assms in auto)

lemma process_region_settles:
  assumes "process_region region c = (res, c')"
  shows "region_settled c' region"
proof (cases rule: process_region_cases[of c region])
  case (no_ec2 e)
  with assms show ?thesis by (auto simp: region_settled_def)
next
  case (no_autoscaling e)
  with assms show ?thesis by (auto simp: region_settled_def)
next
  case (swept stopped c1 scaled c2)
  from swept(5) assms have c': "c' = c2" by simp
  from scale_down_asgs_evolves[OF swept(4)] have e2: "evolves c1 c2" .
  from evolves_ec2_settled[OF e2 stop_idle_instances_settles[OF swept(3)]]
    scale_down_asgs_settles[OF swept(4)] c'
  show ?thesis by (simp add: region_settled_def)
qed

lemma process_region_idle:
  assumes "process_region region c = (Inr result, c')" and "region_settled c region"
  shows "stopped_instances result = [] \<and> scaled_down_asgs result = []"
proof (cases rule: process_region_cases[of c region])
  case (swept stopped c1 scaled c2)
  from assms(2) swept(1,2) have s: "ec2_settled c region" "asg_settled c region"
    by (auto simp: region_settled_def)
  from stop_idle_instances_evolves[OF swept(3)]
  have e01: "evolves c c1" by (rule evolves_trans[OF evolves_with_clients])
  from evolves_ec2_settled[OF evolves_with_clients s(1)]
  have "stopped = []" by (rule stop_idle_instances_idle[OF swept(3)])
  moreover from evolves_asg_settled[OF e01 s(2)]
  have "scaled = []" by (rule scale_down_asgs_idle[OF swept(4)])
  ultimately show ?thesis using swept(5) assms(1) by auto
qed (use assms in auto)

lemma in_region_inject [simp]: "in_region a region = in_region b region \<longleftrightarrow> a = b"
  by (simp add: in_region_def)

lemma is_instance_stop_protected_verdict:
  "fst (is_instance_stop_protected ec2 i c) = Inr (instance_verdict c (client_region ec2) i)"
  by (cases ec2) (simp add: is_instance_stop_protected_eq)

lemma is_asg_protected_verdict:
  "fst (is_asg_protected autoscaling n c) = Inr (asg_verdict c (client_region autoscaling) n)"
  by (cases autoscaling) (simp add: is_asg_protected_eq)

lemma instance_protection_check_raises:
  "fst (instance_protection_check ec2 i c) = Inl e \<Longrightarrow> instance_verdict c (client_region ec2) i"
  by (cases ec2)
    (auto simp: instance_protection_check_def describe_instance_attribute_def describe_tags_def
      api_apply io_bind_def io_return_def instance_verdict_def split: option.splits if_splits)

lemma asg_protection_check_raises:
  "fst (asg_protection_check autoscaling n c) = Inl e \<Longrightarrow> asg_verdict c (client_region autoscaling) n"
  by (cases autoscaling)
    (auto simp: asg_protection_check_def describe_tags_autoscaling_def
      api_apply io_bind_def io_return_def asg_verdict_def split: option.splits if_splits)


lemma ec2_sweep_call_stop:
  "ec2_sweep_call c r (StopInstances r' ids) \<Longrightarrow>
     r' = r \<and> (\<exists>i. ids = [i] \<and> running c r i \<and> \<not> instance_verdict c r i)"
  by (auto split: list.splits)

lemma asg_sweep_call_update:
  "asg_sweep_call c r (UpdateAutoScalingGroup r' n mn mx d) \<Longrightarrow>
     r' = r \<and> mn = 0 \<and> d = 0 \<and> \<not> asg_verdict c r n \<and>
     (\<exists>g. groups (regions c r) n = Some g \<and> max_size g = mx \<and> 0 < desired_capacity g)"
  by (auto split: option.splits)

lemma evolves_max_size:
  "evolves c c' \<Longrightarrow>
     map_option max_size (groups (regions c' r) n) = map_option max_size (groups (regions c r) n)"
  using evolves_groups[of c c' r n]
  by (cases "groups (regions c r) n") (auto simp: zero_group_def)

lemma scaled_down_facts:
  "scaled_down c c' r n \<Longrightarrow>
     \<exists>g. groups (regions c r) n = Some g \<and> 0 < desired_capacity g \<and> \<not> asg_verdict c r n \<and>
         groups (regions c' r) n = Some \<lparr>min_size = 0, max_size = max_size g, desired_capacity = 0\<rparr>"
  by (auto simp: scaled_down_def zero_group_def split: option.splits)

lemma ec2_sweep_call_not_update [simp]:
  "\<not> ec2_sweep_call c r (UpdateAutoScalingGroup r' n mn mx d)"
  by simp

lemma asg_sweep_call_not_stop [simp]:
  "\<not> asg_sweep_call c r (StopInstances r' ids)"
  by simp

lemma process_region_update_calls:
  assumes "process_region region c = (res, c')"
    and "UpdateAutoScalingGroup r n mn mx d \<in> set (new_calls c c')"
  shows "r = region \<and> mn = 0 \<and> d = 0 \<and> \<not> asg_verdict c region n \<and>
         (\<exists>g. groups (regions c region) n = Some g \<and> max_size g = mx \<and> 0 < desired_capacity g)"
proof -
  from process_region_calls[OF assms]
  have "asg_sweep_call c region (UpdateAutoScalingGroup r n mn mx d)" by simp
  from asg_sweep_call_update[OF this] show ?thesis .
qed

lemma process_region_stop_calls:
  assumes "process_region region c = (res, c')"
    and "StopInstances r ids \<in> set (new_calls c c')"
  shows "r = region \<and> (\<exists>i. ids = [i] \<and> running c region i \<and> \<not> instance_verdict c region i)"
proof -
  from process_region_calls[OF assms]
  have "ec2_sweep_call c region (StopInstances r ids)" by simp
  from ec2_sweep_call_stop[OF this] show ?thesis .
qed

section \<open>The driver\<close>

lemma process_region_raises_iff:
  "fst (process_region region c) = Inl e \<longleftrightarrow> region_exn c region = Some e"
  by (cases rule: process_region_cases[of c region]) (auto simp: region_exn_def)

lemma process_region_isl:
  "isl (fst (process_region region c)) \<longleftrightarrow> region_exn c region \<noteq> None"
  by (cases rule: process_region_cases[of c region]) (auto simp: region_exn_def)

lemma evolves_region_exn: "evolves c c' \<Longrightarrow> region_exn c' r = region_exn c r"
  by (simp add: region_exn_def evolves_fault split: option.splits)

lemma evolves_process_region_outcome:
  assumes "evolves c c'"
  shows "isl (fst (process_region r c')) = isl (fst (process_region r c))"
    and "(fst (process_region r c') = Inl e) = (fst (process_region r c) = Inl e)"
  by (simp_all add: process_region_isl process_region_raises_iff evolves_region_exn[OF assms])

lemma handle_region_eq:
  "handle_region region (agg, c) =
     (case process_region region c of
        (Inl e, c1) \<Rightarrow> (Inr (), (agg\<lparr>errors := errors agg @ [region_error region e]\<rparr>, c1))
      | (Inr region_results, c1) \<Rightarrow> (Inr (), (merge_region region region_results agg, c1)))"
  by (simp add: handle_region_def io_try_def io_bind_def io_lift_def io_modify_def
      split: prod.splits sum.splits)

lemma handle_region_evolves:
  assumes "handle_region region (agg, c) = (res, (agg', c'))"
  shows "res = Inr () \<and> evolves c c'"
proof -
  obtain r1 c1 where p: "process_region region c = (r1, c1)" by (cases "process_region region c")
  from process_region_evolves[OF p] assms p show ?thesis
    by (cases r1) (auto simp: handle_region_eq)
qed

lemma handle_region_processed:
  assumes "handle_region region (agg, c) = (res, (agg', c'))"
  shows "regions_processed agg' =
           regions_processed agg @ (if isl (fst (process_region region c)) then [] else [region])"
proof -
  obtain r1 c1 where p: "process_region region c = (r1, c1)" by (cases "process_region region c")
  with assms show ?thesis
    by (cases r1) (auto simp: handle_region_eq merge_region_def)
qed

lemma handle_region_errors:
  assumes "handle_region region (agg, c) = (res, (agg', c'))"
  shows "errors agg' =
           errors agg @ (case fst (process_region region c) of
                           Inl e \<Rightarrow> [region_error region e] | Inr region_results \<Rightarrow> [])"
proof -
  obtain r1 c1 where p: "process_region region c = (r1, c1)" by (cases "process_region region c")
  show ?thesis
  proof (cases r1)
    case (Inl e)
    with assms p show ?thesis by (auto simp: handle_region_eq)
  next
    case (Inr rr)
    with p process_region_errors[of region c rr c1] have "errors rr = []" by simp
    with assms p Inr show ?thesis by (auto simp: handle_region_eq merge_region_def)
  qed
qed

lemma sweep_calls_not_client:
  "ec2_sweep_call c r call \<or> asg_sweep_call c r call \<Longrightarrow> ec2_client_region call = None"
  by (cases call) auto

lemma map_filter_append: "List.map_filter f (xs @ ys) = List.map_filter f xs @ List.map_filter f ys"
  by (simp add: List.map_filter_def)

lemma map_filter_all_None: "\<forall>x\<in>set xs. f x = None \<Longrightarrow> List.map_filter f xs = []"
  by (induction xs) auto

lemma process_region_client_calls:
  assumes "process_region region c = (res, c')"
  shows "List.map_filter ec2_client_region (new_calls c c') = [region]"
proof (cases rule: process_region_cases[of c region])
  case (no_ec2 e)
  with assms show ?thesis by auto
next
  case (no_autoscaling e)
  with assms show ?thesis by (auto simp: with_clients_def)
next
  case (swept stopped c1 scaled c2)
  let ?c0 = "with_clients region c"
  from swept(5) assms have c': "c' = c2" by simp
  from stop_idle_instances_evolves[OF swept(3)] have e1: "evolves ?c0 c1" .
  from scale_down_asgs_evolves[OF swept(4)] have e2: "evolves c1 c2" .
  have split: "new_calls c c2 = new_calls c ?c0 @ new_calls ?c0 c1 @ new_calls c1 c2"
    using new_calls_trans[OF evolves_with_clients evolves_trans[OF e1 e2]]
      new_calls_trans[OF e1 e2] by simp
  have a: "List.map_filter ec2_client_region (new_calls ?c0 c1) = []"
    using stop_idle_instances_calls[OF swept(3)]
    by (intro map_filter_all_None ballI sweep_calls_not_client) blast
  have b: "List.map_filter ec2_client_region (new_calls c1 c2) = []"
    using scale_down_asgs_calls[OF swept(4)]
    by (intro map_filter_all_None ballI sweep_calls_not_client) blast
  have "List.map_filter ec2_client_region (new_calls c ?c0) = [region]"
    by (simp add: with_clients_def)
  with a b split c' show ?thesis by (simp add: map_filter_append)
qed

lemma handle_region_client_calls:
  assumes "handle_region region (agg, c) = (res, (agg', c'))"
  shows "List.map_filter ec2_client_region (new_calls c c') = [region]"
proof -
  obtain r1 c1 where p: "process_region region c = (r1, c1)" by (cases "process_region region c")
  from process_region_client_calls[OF p] assms p show ?thesis
    by (cases r1) (auto simp: handle_region_eq)
qed

lemma handle_region_settles:
  assumes "handle_region region (agg, c) = (res, (agg', c'))"
  shows "region_settled c' region"
proof -
  obtain r1 c1 where p: "process_region region c = (r1, c1)" by (cases "process_region region c")
  from process_region_settles[OF p] assms p show ?thesis
    by (cases r1) (auto simp: handle_region_eq)
qed

lemma handle_region_idle:
  assumes "handle_region region (agg, c) = (res, (agg', c'))" and "region_settled c region"
  shows "stopped_instances agg' = stopped_instances agg \<and> scaled_down_asgs agg' = scaled_down_asgs agg"
proof -
  obtain r1 c1 where p: "process_region region c = (r1, c1)" by (cases "process_region region c")
  show ?thesis
  proof (cases r1)
    case (Inl e)
    with assms p show ?thesis by (auto simp: handle_region_eq)
  next
    case (Inr rr)
    with p process_region_idle[of region c rr c1] assms(2)
    have "stopped_instances rr = [] \<and> scaled_down_asgs rr = []" by simp
    with assms p Inr show ?thesis by (auto simp: handle_region_eq merge_region_def)
  qed
qed

lemma regions_loop_evolves:
  "for_each rs handle_region (agg, c) = (res, (agg', c')) \<Longrightarrow> res = Inr () \<and> evolves c c'"
proof (induction rs arbitrary: agg c)
  case Nil
  then show ?case by (simp add: io_return_def)
next
  case (Cons r rs)
  obtain r1 agg1 c1 where step: "handle_region r (agg, c) = (r1, (agg1, c1))"
    by (metis surj_pair)
  from handle_region_evolves[OF step] have r1: "r1 = Inr ()" and e1: "evolves c c1" by auto
  from Cons.prems step r1 have rest: "for_each rs handle_region (agg1, c1) = (res, (agg', c'))"
    by (simp add: io_bind_def)
  from Cons.IH[OF rest] e1 show ?case by (auto intro: evolves_trans)
qed

lemma regions_loop_processed:
  "for_each rs handle_region (agg, c) = (res, (agg', c')) \<Longrightarrow>
     regions_processed agg' =
       regions_processed agg @ filter (\<lambda>r. \<not> isl (fst (process_region r c))) rs"
proof (induction rs arbitrary: agg c)
  case Nil
  then show ?case by (simp add: io_return_def)
next
  case (Cons r rs)
  obtain r1 agg1 c1 where step: "handle_region r (agg, c) = (r1, (agg1, c1))"
    by (metis surj_pair)
  from handle_region_evolves[OF step] have r1: "r1 = Inr ()" and e1: "evolves c c1" by auto
  from Cons.prems step r1 have rest: "for_each rs handle_region (agg1, c1) = (res, (agg', c'))"
    by (simp add: io_bind_def)
  from Cons.IH[OF rest] handle_region_processed[OF step]
  show ?case by (simp add: evolves_process_region_outcome(1)[OF e1])
qed

lemma process_region_error_entry:
  "(case fst (process_region r c) of Inl e \<Rightarrow> [region_error r e] | Inr region_results \<Rightarrow> [])
     = (case region_exn c r of Some e \<Rightarrow> [region_error r e] | None \<Rightarrow> [])"
  by (cases rule: process_region_cases[of c r]) (simp_all add: region_exn_def)

lemma regions_loop_errors:
  "for_each rs handle_region (agg, c) = (res, (agg', c')) \<Longrightarrow>
     errors agg' =
       errors agg @ concat (map (\<lambda>r. case fst (process_region r c) of
                                        Inl e \<Rightarrow> [region_error r e] | Inr region_results \<Rightarrow> []) rs)"
proof (induction rs arbitrary: agg c)
  case Nil
  then show ?case by (simp add: io_return_def)
next
  case (Cons r rs)
  obtain r1 agg1 c1 where step: "handle_region r (agg, c) = (r1, (agg1, c1))"
    by (metis surj_pair)
  from handle_region_evolves[OF step] have r1: "r1 = Inr ()" and e1: "evolves c c1" by auto
  from Cons.prems step r1 have rest: "for_each rs handle_region (agg1, c1) = (res, (agg', c'))"
    by (simp add: io_bind_def)
  have same: "(case fst (process_region x c1) of Inl e \<Rightarrow> [region_error x e] | Inr rr \<Rightarrow> [])
            = (case fst (process_region x c) of Inl e \<Rightarrow> [region_error x e] | Inr rr \<Rightarrow> [])" for x
    by (simp only: process_region_error_entry evolves_region_exn[OF e1])
  from Cons.IH[OF rest] have "errors agg' = errors agg1 @ concat (map (\<lambda>r. case fst (process_region r c) of
                                        Inl e \<Rightarrow> [region_error r e] | Inr region_results \<Rightarrow> []) rs)"
    by (simp only: same)
  with handle_region_errors[OF step] show ?case by simp
qed

lemma regions_loop_client_calls:
  "for_each rs handle_region (agg, c) = (res, (agg', c')) \<Longrightarrow>
     List.map_filter ec2_client_region (new_calls c c') = rs"
proof (induction rs arbitrary: agg c)
  case Nil
  then show ?case by (simp add: io_return_def)
next
  case (Cons r rs)
  obtain r1 agg1 c1 where step: "handle_region r (agg, c) = (r1, (agg1, c1))"
    by (metis surj_pair)
  from handle_region_evolves[OF step] have r1: "r1 = Inr ()" and e1: "evolves c c1" by auto
  from Cons.prems step r1 have rest: "for_each rs handle_region (agg1, c1) = (res, (agg', c'))"
    by (simp add: io_bind_def)
  from regions_loop_evolves[OF rest] have e2: "evolves c1 c'" by simp
  from Cons.IH[OF rest] handle_region_client_calls[OF step] new_calls_trans[OF e1 e2]
  show ?case by (simp add: map_filter_append)
qed

lemma regions_loop_settles:
  "for_each rs handle_region (agg, c) = (res, (agg', c')) \<Longrightarrow> r \<in> set rs \<Longrightarrow> region_settled c' r"
proof (induction rs arbitrary: agg c)
  case Nil
  then show ?case by simp
next
  case (Cons r' rs)
  obtain r1 agg1 c1 where step: "handle_region r' (agg, c) = (r1, (agg1, c1))"
    by (metis surj_pair)
  from handle_region_evolves[OF step] have r1: "r1 = Inr ()" and e1: "evolves c c1" by auto
  from Cons.prems(1) step r1 have rest: "for_each rs handle_region (agg1, c1) = (res, (agg', c'))"
    by (simp add: io_bind_def)
  from regions_loop_evolves[OF rest] have e2: "evolves c1 c'" by simp
  show ?case
  proof (cases "r \<in> set rs")
    case True
    from Cons.IH[OF rest True] show ?thesis .
  next
    case False
    with Cons.prems(2) have "r = r'" by simp
    with handle_region_settles[OF step] e2 show ?thesis by (auto intro: evolves_region_settled)
  qed
qed

lemma regions_loop_idle:
  "for_each rs handle_region (agg, c) = (res, (agg', c')) \<Longrightarrow> \<forall>r\<in>set rs. region_settled c r \<Longrightarrow>
     stopped_instances agg' = stopped_instances agg \<and> scaled_down_asgs agg' = scaled_down_asgs agg"
proof (induction rs arbitrary: agg c)
  case Nil
  then show ?case by (simp add: io_return_def)
next
  case (Cons r rs)
  obtain r1 agg1 c1 where step: "handle_region r (agg, c) = (r1, (agg1, c1))"
    by (metis surj_pair)
  from handle_region_evolves[OF step] have r1: "r1 = Inr ()" and e1: "evolves c c1" by auto
  from Cons.prems(1) step r1 have rest: "for_each rs handle_region (agg1, c1) = (res, (agg', c'))"
    by (simp add: io_bind_def)
  from Cons.prems(2) e1 have "\<forall>r\<in>set rs. region_settled c1 r"
    by (auto intro: evolves_region_settled)
  from Cons.IH[OF rest this] handle_region_idle[OF step] Cons.prems(2)
  show ?case by simp
qed

lemma lambda_handler_eq:
  assumes "for_each (get_allowed_regions (environ c)) handle_region (initial_aggregate, c)
             = (res, (agg, c'))"
  shows "lambda_handler c = (Inr \<lparr>statusCode = 200, body = agg\<rparr>, c')"
proof -
  from regions_loop_evolves[OF assms] have "res = Inr ()" by simp
  with assms show ?thesis
    by (simp add: lambda_handler_def run_local_def io_bind_def io_return_def initial_aggregate_def)
qed

lemma str_split_no_sep: "sep \<notin> set s \<Longrightarrow> str_split sep s = [s]"
  by (induction s) auto

lemma str_split_append_sep:
  "sep \<notin> set s \<Longrightarrow> str_split sep (s @ sep # rest) = s # str_split sep rest"
  by (induction s) auto

lemma str_split_comma_join:
  "es \<noteq> [] \<Longrightarrow> \<forall>e\<in>set es. sep \<notin> set e \<Longrightarrow> sep = CHR '','' \<Longrightarrow> str_split sep (comma_join es) = es"
proof (induction es rule: comma_join.induct)
  case 1
  then show ?case by simp
next
  case (2 e)
  then show ?case by (simp add: str_split_no_sep)
next
  case (3 e v va)
  then show ?case by (simp add: str_split_append_sep)
qed

lemma get_allowed_regions_comma_join:
  assumes "env ''ALLOWED_REGIONS'' = Some (comma_join entries)"
    and "\<forall>e\<in>set entries. CHR '','' \<notin> set e"
  shows "get_allowed_regions env = filter (\<lambda>s. s \<noteq> []) (map strip entries)"
proof (cases "entries = []")
  case True
  with assms(1) show ?thesis by (simp add: get_allowed_regions_def strip_def)
next
  case False
  from str_split_comma_join[OF False assms(2) refl] assms(1) show ?thesis
    by (simp add: get_allowed_regions_def filter_map comp_def)
qed

lemma count_list_filter: "count_list (filter P xs) x = (if P x then count_list xs x else 0)"
  by (induction xs) auto

lemma lambda_handler_returns:
  obtains agg c' where
    "for_each (get_allowed_regions (environ c)) handle_region (initial_aggregate, c) = (Inr (), (agg, c'))"
    "lambda_handler c = (Inr \<lparr>statusCode = 200, body = agg\<rparr>, c')"
proof -
  obtain res agg c' where loop:
    "for_each (get_allowed_regions (environ c)) handle_region (initial_aggregate, c) = (res, (agg, c'))"
    by (metis surj_pair)
  from regions_loop_evolves[OF loop] have "res = Inr ()" by simp
  with loop lambda_handler_eq[OF loop] that show ?thesis by simp
qed

lemma takeWhile_more_refusals:
  "(\<And>x. Q x \<Longrightarrow> P x) \<Longrightarrow> x \<in> set (takeWhile Q xs) \<Longrightarrow> x \<in> set (takeWhile P xs)"
  by (induction xs) (auto split: if_splits)

lemma instance_verdict_more_refusals:
  assumes "\<forall>call. fault c call \<noteq> None \<longrightarrow> refused call \<noteq> None"
    and "instance_verdict c r i"
  shows "instance_verdict (c\<lparr>fault := refused\<rparr>) r i"
  using assms unfolding instance_verdict_def by auto

lemma asg_verdict_more_refusals:
  assumes "\<forall>call. fault c call \<noteq> None \<longrightarrow> refused call \<noteq> None"
    and "asg_verdict c r n"
  shows "asg_verdict (c\<lparr>fault := refused\<rparr>) r n"
  using assms unfolding asg_verdict_def by auto

lemma settled_group_more_refusals:
  assumes "\<forall>call. fault c call \<noteq> None \<longrightarrow> refused call \<noteq> None"
    and "settled_group c r n"
  shows "settled_group (c\<lparr>fault := refused\<rparr>) r n"
proof (cases "groups (regions c r) n")
  case None
  then show ?thesis by (simp add: settled_group_def)
next
  case (Some g)
  with assms(2) have "asg_verdict c r n \<or> desired_capacity g \<le> 0 \<or>
      fault c (UpdateAutoScalingGroup r n 0 (max_size g) 0) \<noteq> None"
    by (simp add: settled_group_def)
  with assms(1) asg_verdict_more_refusals[OF assms(1)]
  have "asg_verdict (c\<lparr>fault := refused\<rparr>) r n \<or> desired_capacity g \<le> 0 \<or>
      refused (UpdateAutoScalingGroup r n 0 (max_size g) 0) \<noteq> None"
    by blast
  with Some show ?thesis by (simp add: settled_group_def)
qed

lemma ec2_settled_more_refusals:
  assumes more: "\<forall>call. fault c call \<noteq> None \<longrightarrow> refused call \<noteq> None"
    and "ec2_settled c r"
  shows "ec2_settled (c\<lparr>fault := refused\<rparr>) r"
proof (cases "fault c (DescribeInstances r [''running''])")
  case (Some e)
  with more have "refused (DescribeInstances r [''running'']) \<noteq> None" by blast
  then show ?thesis by (simp add: ec2_settled_def)
next
  case None
  with assms(2) have all: "\<forall>res\<in>set (reservations (regions c r)). \<forall>i\<in>set res.
        running c r i \<longrightarrow> instance_verdict c r i \<or> fault c (StopInstances r [i]) \<noteq> None"
    by (simp add: ec2_settled_def)
  have "instance_verdict (c\<lparr>fault := refused\<rparr>) r i \<or> refused (StopInstances r [i]) \<noteq> None"
    if "res \<in> set (reservations (regions c r))" "i \<in> set res" "running c r i" for res i
    using all that more instance_verdict_more_refusals[OF more] by blast
  then show ?thesis by (simp add: ec2_settled_def running_def)
qed

lemma asg_settled_more_refusals:
  assumes more: "\<forall>call. fault c call \<noteq> None \<longrightarrow> refused call \<noteq> None"
    and "asg_settled c r"
  shows "asg_settled (c\<lparr>fault := refused\<rparr>) r"
proof -
  have "settled_group (c\<lparr>fault := refused\<rparr>) r n"
    if k: "k \<in> set (takeWhile (\<lambda>k. refused (DescribeAutoScalingGroups r k) = None)
                        [0 ..< length (asg_pages (regions c r))])"
      and n: "n \<in> set (asg_pages (regions c r) ! k)" for k n
  proof -
    have "k \<in> set (takeWhile (\<lambda>k. fault c (DescribeAutoScalingGroups r k) = None)
                        [0 ..< length (asg_pages (regions c r))])"
      using more by (intro takeWhile_more_refusals[OF _ k]) auto
    with assms(2) n have "settled_group c r n" by (auto simp: asg_settled_def reached_pages_def)
    then show ?thesis by (rule settled_group_more_refusals[OF more])
  qed
  then show ?thesis by (simp add: asg_settled_def reached_pages_def)
qed

lemma region_settled_more_refusals:
  assumes more: "\<forall>call. fault c call \<noteq> None \<longrightarrow> refused call \<noteq> None"
    and "region_settled c r"
  shows "region_settled (c\<lparr>fault := refused\<rparr>) r"
  using assms(2) more ec2_settled_more_refusals[OF more, of r] asg_settled_more_refusals[OF more, of r]
  unfolding region_settled_def by (simp, blast)

section \<open>The protection policy\<close>

lemma lower_char_lowercase:
  assumes "97 \<le> (of_char t :: nat)" and "(of_char t :: nat) \<le> 122"
  shows "lower_char ch = t \<longleftrightarrow> same_letter ch t"
proof -
  have n: "(of_char ch :: nat) < 256" by simp
  have "lower_char ch = t \<longleftrightarrow> (of_char (lower_char ch) :: nat) = of_char t" by simp
  also have "\<dots> \<longleftrightarrow> (of_char ch :: nat) = of_char t \<or> (of_char ch :: nat) + 32 = of_char t"
    using assms n by (auto simp: lower_char_def Let_def)
  also have "\<dots> \<longleftrightarrow> same_letter ch t"
    using assms n by (auto simp: same_letter_def ascii_letter_def Let_def)
  finally show ?thesis .
qed

lemma lower_eq_keep: "lower v = ''keep'' \<longleftrightarrow> equals_ignoring_case v ''keep''"
proof -
  have k: "lower_char ch = CHR ''k'' \<longleftrightarrow> same_letter ch CHR ''k''" for ch
    by (rule lower_char_lowercase) simp_all
  have e: "lower_char ch = CHR ''e'' \<longleftrightarrow> same_letter ch CHR ''e''" for ch
    by (rule lower_char_lowercase) simp_all
  have p: "lower_char ch = CHR ''p'' \<longleftrightarrow> same_letter ch CHR ''p''" for ch
    by (rule lower_char_lowercase) simp_all
  show ?thesis
    by (auto simp: lower_def equals_ignoring_case_def list_all2_Cons2 map_eq_Cons_conv k e p)
qed

lemma keep_tag_iff:
  "keep_tag t \<longleftrightarrow>
     (case tag_Value t of None \<Rightarrow> False | Some v \<Rightarrow> equals_ignoring_case v ''keep'')"
proof (cases "tag_Value t")
  case None
  then show ?thesis by (simp add: keep_tag_def lower_def)
next
  case (Some v)
  then show ?thesis by (simp add: keep_tag_def lower_eq_keep)
qed

lemma keep_tag_filter:
  "list_ex keep_tag (filter (\<lambda>t. tag_Key t = ''ResourceGovernance'') ts) = has_keep_tag ts"
  by (induction ts) (simp_all add: has_keep_tag_def keep_tag_iff)

lemma disable_api_stop_value_iff:
  "disable_api_stop_value response \<longleftrightarrow> reports_api_stop_disabled response"
proof (cases "DisableApiStop response")
  case None
  then show ?thesis by (simp add: disable_api_stop_value_def reports_api_stop_disabled_def)
next
  case (Some a)
  then show ?thesis
    by (cases a; cases "attr_Value a")
      (auto simp: disable_api_stop_value_def reports_api_stop_disabled_def)
qed

lemma instance_protection_check_isl:
  "isl (fst (instance_protection_check ec2 i c)) \<longleftrightarrow>
     fault c (DescribeInstanceAttribute (client_region ec2) i ''disableApiStop'') \<noteq> None \<or>
     (\<not> disable_api_stop_value (api_stop (regions c (client_region ec2)) i) \<and>
      fault c (DescribeTags (client_region ec2) i ''ResourceGovernance'') \<noteq> None)"
  by (cases ec2)
    (auto simp: instance_protection_check_def describe_instance_attribute_def describe_tags_def
      api_apply io_bind_def io_return_def split: option.splits if_splits)

lemma asg_protection_check_isl:
  "isl (fst (asg_protection_check autoscaling n c)) \<longleftrightarrow>
     fault c (DescribeTagsAutoScaling (client_region autoscaling) n ''ResourceGovernance'') \<noteq> None"
  by (cases autoscaling)
    (auto simp: asg_protection_check_def describe_tags_autoscaling_def
      api_apply io_bind_def io_return_def split: option.splits if_splits)

section \<open>The region orchestrator\<close>

text \<open>
  C2, as stated, fails: the two clients are constructed before the \<open>try\<close> of
  \<open>process_region\<close>, so an exception of \<open>boto3.client\<close> leaves the function. Here the
  construction of the EC2 client raises and \<open>process_region\<close> raises the same exception.
\<close>

theorem process_region_propagates_client_failure:
  "fst (process_region ''us-east-1'' no_ec2_client_cloud) = Inl ''NoCredentialsError''"
  by (simp add: process_region_fail_ec2 no_ec2_client_cloud_def example_cloud_def)

text \<open>
  C2, amended: \<open>process_region\<close> returns a \<open>GovernanceResult\<close> exactly when both clients
  are constructed, whatever calls fail inside the two sweepers; an exception of the
  client construction is the only one that reaches the caller.
\<close>

theorem process_region_returns_iff_clients:
  "(\<exists>result. fst (process_region region c) = Inr result) \<longleftrightarrow>
     fault c (CreateClient ''ec2'' region) = None \<and>
     fault c (CreateClient ''autoscaling'' region) = None"
proof (cases "fault c (CreateClient ''ec2'' region)")
  case (Some e)
  then show ?thesis by (simp add: process_region_fail_ec2)
next
  case None
  show ?thesis
  proof (cases "fault c (CreateClient ''autoscaling'' region)")
    case (Some e)
    with None show ?thesis by (simp add: process_region_fail_autoscaling)
  next
    case ok: None
    obtain stopped c1 where
      s1: "stop_idle_instances (Client ''ec2'' region) region (with_clients region c) = (Inr stopped, c1)"
      using stop_idle_instances_returns by blast
    obtain scaled c2 where
      s2: "scale_down_asgs (Client ''autoscaling'' region) region c1 = (Inr scaled, c2)"
      using scale_down_asgs_returns by blast
    from process_region_ok[OF None ok s1 s2] None ok show ?thesis by simp
  qed
qed

theorem process_region_returns_iff_clients_witness:
  "fault failing_sweeps_cloud (CreateClient ''ec2'' ''us-east-1'') = None \<and>
   fault failing_sweeps_cloud (CreateClient ''autoscaling'' ''us-east-1'') = None \<and>
   fault failing_sweeps_cloud (DescribeInstances ''us-east-1'' [''running'']) \<noteq> None \<and>
   (\<exists>result. fst (process_region ''us-east-1'' failing_sweeps_cloud) = Inr result)"
  using process_region_returns_iff_clients [of "''us-east-1''" failing_sweeps_cloud]
  by (simp add: failing_sweeps_cloud_def example_cloud_def)

section \<open>The instance sweeper\<close>

text \<open>
  C8: every stop call that \<open>stop_idle_instances\<close> issues is for one instance of the
  client's region that was running when the sweep began and for which
  \<open>is_instance_stop_protected\<close> answers false. So an instance that is not running, or
  for which the answer is true, is in no stop call, and an instance for which the answer
  is true is not in the returned list either.
\<close>

theorem stop_only_running_unprotected:
  assumes "stop_idle_instances ec2 region c = (Inr stopped, c')"
  shows "(\<forall>r ids. StopInstances r ids \<in> set (new_calls c c') \<longrightarrow>
            r = client_region ec2 \<and>
            (\<exists>i. ids = [i] \<and> running c r i \<and> fst (is_instance_stop_protected ec2 i c) = Inr False)) \<and>
         (\<forall>i. \<not> running c (client_region ec2) i \<or> fst (is_instance_stop_protected ec2 i c) = Inr True \<longrightarrow>
            (\<forall>r ids. StopInstances r ids \<in> set (new_calls c c') \<longrightarrow> i \<notin> set ids)) \<and>
         (\<forall>i. fst (is_instance_stop_protected ec2 i c) = Inr True \<longrightarrow> in_region i region \<notin> set stopped)"
proof -
  obtain s r where ec2: "ec2 = Client s r" by (cases ec2)
  have cr: "client_region ec2 = r" by (simp add: ec2)
  have calls: "r' = r \<and> (\<exists>i. ids = [i] \<and> running c r i \<and> \<not> instance_verdict c r i)"
    if "StopInstances r' ids \<in> set (new_calls c c')" for r' ids
    using stop_idle_instances_calls[OF assms[unfolded ec2] that] by (rule ec2_sweep_call_stop)
  have result: "\<not> instance_verdict c r i" if "in_region i region \<in> set stopped" for i
    using stop_idle_instances_result[OF assms[unfolded ec2] that] by auto
  have vF: "fst (is_instance_stop_protected ec2 i c) = Inr False \<longleftrightarrow> \<not> instance_verdict c r i" for i
    by (simp add: is_instance_stop_protected_verdict cr)
  have vT: "fst (is_instance_stop_protected ec2 i c) = Inr True \<longleftrightarrow> instance_verdict c r i" for i
    by (simp add: is_instance_stop_protected_verdict cr)
  have 1: "\<forall>r' ids. StopInstances r' ids \<in> set (new_calls c c') \<longrightarrow>
            r' = client_region ec2 \<and>
            (\<exists>i. ids = [i] \<and> running c r' i \<and> fst (is_instance_stop_protected ec2 i c) = Inr False)"
    unfolding vF cr using calls by blast
  have 2: "\<forall>i. \<not> running c (client_region ec2) i \<or> fst (is_instance_stop_protected ec2 i c) = Inr True \<longrightarrow>
            (\<forall>r' ids. StopInstances r' ids \<in> set (new_calls c c') \<longrightarrow> i \<notin> set ids)"
    unfolding vT cr
  proof (intro allI impI)
    fix i r' ids
    assume i: "\<not> running c r i \<or> instance_verdict c r i"
      and m: "StopInstances r' ids \<in> set (new_calls c c')"
    from calls[OF m] obtain j where "ids = [j]" "running c r j" "\<not> instance_verdict c r j" by blast
    with i show "i \<notin> set ids" by auto
  qed
  have 3: "\<forall>i. fst (is_instance_stop_protected ec2 i c) = Inr True \<longrightarrow> in_region i region \<notin> set stopped"
    unfolding vT using result by blast
  from 1 2 3 show ?thesis by (intro conjI)
qed


theorem stop_only_running_unprotected_witness:
  "fst (stop_idle_instances (Client ''ec2'' ''us-east-1'') ''us-east-1'' example_cloud)
     = Inr [''i-1 (us-east-1)''] \<and>
   \<not> running example_cloud ''us-east-1'' ''i-3'' \<and>
   fst (is_instance_stop_protected (Client ''ec2'' ''us-east-1'') ''i-2'' example_cloud) = Inr True \<and>
   StopInstances ''us-east-1'' [''i-3''] \<notin> set (new_calls example_cloud
      (snd (stop_idle_instances (Client ''ec2'' ''us-east-1'') ''us-east-1'' example_cloud))) \<and>
   StopInstances ''us-east-1'' [''i-2''] \<notin> set (new_calls example_cloud
      (snd (stop_idle_instances (Client ''ec2'' ''us-east-1'') ''us-east-1'' example_cloud))) \<and>
   in_region ''i-2'' ''us-east-1'' \<notin> set [''i-1 (us-east-1)'']"
proof -
  let ?ec2 = "Client ''ec2'' ''us-east-1''"
  let ?run = "stop_idle_instances ?ec2 ''us-east-1'' example_cloud"
  have r: "fst ?run = Inr [''i-1 (us-east-1)'']" by code_simp
  then have h: "?run = (Inr [''i-1 (us-east-1)''], snd ?run)" by (simp add: prod_eq_iff)
  have a: "\<not> running example_cloud ''us-east-1'' ''i-3''" by code_simp
  have b: "fst (is_instance_stop_protected ?ec2 ''i-2'' example_cloud) = Inr True" by code_simp
  note t = stop_only_running_unprotected[OF h]
  have cr: "client_region ?ec2 = ''us-east-1''" by simp
  from t have t2: "\<forall>i. \<not> running example_cloud (client_region ?ec2) i \<or>
        fst (is_instance_stop_protected ?ec2 i example_cloud) = Inr True \<longrightarrow>
      (\<forall>r ids. StopInstances r ids \<in> set (new_calls example_cloud (snd ?run)) \<longrightarrow> i \<notin> set ids)"
    by (rule conjunct1[OF conjunct2])
  from t have t3: "\<forall>i. fst (is_instance_stop_protected ?ec2 i example_cloud) = Inr True \<longrightarrow>
      in_region i ''us-east-1'' \<notin> set [''i-1 (us-east-1)'']"
    by (rule conjunct2[OF conjunct2])
  have n3: "StopInstances ''us-east-1'' [''i-3''] \<notin> set (new_calls example_cloud (snd ?run))"
  proof
    assume m: "StopInstances ''us-east-1'' [''i-3''] \<in> set (new_calls example_cloud (snd ?run))"
    have "\<not> running example_cloud (client_region ?ec2) ''i-3'' \<or>
        fst (is_instance_stop_protected ?ec2 ''i-3'' example_cloud) = Inr True"
      unfolding cr using a by (rule disjI1)
    from t2[rule_format, OF this m] show False by simp
  qed
  have n2: "StopInstances ''us-east-1'' [''i-2''] \<notin> set (new_calls example_cloud (snd ?run))"
  proof
    assume m: "StopInstances ''us-east-1'' [''i-2''] \<in> set (new_calls example_cloud (snd ?run))"
    have "\<not> running example_cloud (client_region ?ec2) ''i-2'' \<or>
        fst (is_instance_stop_protected ?ec2 ''i-2'' example_cloud) = Inr True"
      using b by (rule disjI2)
    from t2[rule_format, OF this m] show False by simp
  qed
  have n1: "in_region ''i-2'' ''us-east-1'' \<notin> set [''i-1 (us-east-1)'']"
    by (rule t3[rule_format, OF b])
  from r a b n3 n2 n1 show ?thesis by (intro conjI)
qed

section \<open>The group sweeper\<close>

text \<open>
  C4: every update call that \<open>scale_down_asgs\<close> issues is for a group of the client's
  region at a positive desired capacity, and passes \<open>MinSize = 0\<close>,
  \<open>DesiredCapacity = 0\<close> and, as \<open>MaxSize\<close>, the maximum the group had when the sweep
  began. Every group named in the returned list was unprotected and at a positive
  capacity, and after the sweep has minimum and desired capacity zero and its maximum
  as before. No group's maximum is changed by the sweep.
\<close>

theorem scale_down_keeps_max_size:
  assumes "scale_down_asgs autoscaling region c = (Inr scaled, c')"
  shows "(\<forall>r n mn mx d. UpdateAutoScalingGroup r n mn mx d \<in> set (new_calls c c') \<longrightarrow>
            r = client_region autoscaling \<and> mn = 0 \<and> d = 0 \<and>
            (\<exists>g. groups (regions c r) n = Some g \<and> max_size g = mx \<and> 0 < desired_capacity g)) \<and>
         (\<forall>z\<in>set scaled. \<exists>n g. z = in_region n region \<and>
            groups (regions c (client_region autoscaling)) n = Some g \<and> 0 < desired_capacity g \<and>
            fst (is_asg_protected autoscaling n c) = Inr False \<and>
            groups (regions c' (client_region autoscaling)) n =
              Some \<lparr>min_size = 0, max_size = max_size g, desired_capacity = 0\<rparr>) \<and>
         (\<forall>r n. map_option max_size (groups (regions c' r) n) =
                map_option max_size (groups (regions c r) n))"
proof -
  obtain s r where cl: "autoscaling = Client s r" by (cases autoscaling)
  have cr: "client_region autoscaling = r" by (simp add: cl)
  note run = assms[unfolded cl]
  have vF: "fst (is_asg_protected autoscaling n c) = Inr False \<longleftrightarrow> \<not> asg_verdict c r n" for n
    by (simp add: is_asg_protected_verdict cr)
  have 1: "\<forall>r' n mn mx d. UpdateAutoScalingGroup r' n mn mx d \<in> set (new_calls c c') \<longrightarrow>
            r' = client_region autoscaling \<and> mn = 0 \<and> d = 0 \<and>
            (\<exists>g. groups (regions c r') n = Some g \<and> max_size g = mx \<and> 0 < desired_capacity g)"
  proof (intro allI impI)
    fix r' n mn mx d
    assume "UpdateAutoScalingGroup r' n mn mx d \<in> set (new_calls c c')"
    from asg_sweep_call_update[OF scale_down_asgs_calls[OF run this]]
    show "r' = client_region autoscaling \<and> mn = 0 \<and> d = 0 \<and>
            (\<exists>g. groups (regions c r') n = Some g \<and> max_size g = mx \<and> 0 < desired_capacity g)"
      unfolding cr by blast
  qed
  have 2: "\<forall>z\<in>set scaled. \<exists>n g. z = in_region n region \<and>
            groups (regions c (client_region autoscaling)) n = Some g \<and> 0 < desired_capacity g \<and>
            fst (is_asg_protected autoscaling n c) = Inr False \<and>
            groups (regions c' (client_region autoscaling)) n =
              Some \<lparr>min_size = 0, max_size = max_size g, desired_capacity = 0\<rparr>"
  proof (intro ballI)
    fix z assume "z \<in> set scaled"
    from scale_down_asgs_result[OF run this] obtain n where
      n: "z = in_region n region" "scaled_down c c' r n" by blast
    from scaled_down_facts[OF n(2)] n(1)
    show "\<exists>n g. z = in_region n region \<and>
            groups (regions c (client_region autoscaling)) n = Some g \<and> 0 < desired_capacity g \<and>
            fst (is_asg_protected autoscaling n c) = Inr False \<and>
            groups (regions c' (client_region autoscaling)) n =
              Some \<lparr>min_size = 0, max_size = max_size g, desired_capacity = 0\<rparr>"
      unfolding vF cr by blast
  qed
  have 3: "\<forall>r n. map_option max_size (groups (regions c' r) n) =
                map_option max_size (groups (regions c r) n)"
    using evolves_max_size[OF scale_down_asgs_evolves[OF run]] by blast
  from 1 2 3 show ?thesis by (intro conjI)
qed

theorem scale_down_keeps_max_size_witness:
  "fst (scale_down_asgs (Client ''autoscaling'' ''us-east-1'') ''us-east-1'' example_cloud)
     = Inr [''asg-a (us-east-1)''] \<and>
   groups (regions example_cloud ''us-east-1'') ''asg-a''
     = Some \<lparr>min_size = 1, max_size = 5, desired_capacity = 3\<rparr> \<and>
   groups (regions (snd (scale_down_asgs (Client ''autoscaling'' ''us-east-1'') ''us-east-1''
                           example_cloud)) ''us-east-1'') ''asg-a''
     = Some \<lparr>min_size = 0, max_size = 5, desired_capacity = 0\<rparr> \<and>
   (\<exists>n g. ''asg-a (us-east-1)'' = in_region n ''us-east-1'' \<and>
      groups (regions example_cloud ''us-east-1'') n = Some g \<and> 0 < desired_capacity g \<and>
      fst (is_asg_protected (Client ''autoscaling'' ''us-east-1'') n example_cloud) = Inr False \<and>
      groups (regions (snd (scale_down_asgs (Client ''autoscaling'' ''us-east-1'') ''us-east-1''
                             example_cloud)) ''us-east-1'') n
        = Some \<lparr>min_size = 0, max_size = max_size g, desired_capacity = 0\<rparr>)"
proof -
  let ?as = "Client ''autoscaling'' ''us-east-1''"
  let ?run = "scale_down_asgs ?as ''us-east-1'' example_cloud"
  have r: "fst ?run = Inr [''asg-a (us-east-1)'']" by code_simp
  then have h: "?run = (Inr [''asg-a (us-east-1)''], snd ?run)" by (simp add: prod_eq_iff)
  have a: "groups (regions example_cloud ''us-east-1'') ''asg-a''
     = Some \<lparr>min_size = 1, max_size = 5, desired_capacity = 3\<rparr>" by code_simp
  have b: "groups (regions (snd ?run) ''us-east-1'') ''asg-a''
     = Some \<lparr>min_size = 0, max_size = 5, desired_capacity = 0\<rparr>" by code_simp
  have m: "''asg-a (us-east-1)'' \<in> set [''asg-a (us-east-1)'']" by simp
  have cr: "client_region ?as = ''us-east-1''" by simp
  note t = scale_down_keeps_max_size[OF h, unfolded cr]
  from t[THEN conjunct2, THEN conjunct1, rule_format, OF m] r a b
  show ?thesis by (intro conjI)
qed

text \<open>
  C7: when a group of the region is at desired capacity zero as \<open>process_region\<close>
  begins, whether protected or not, no update call is issued for it, its name is not in
  \<open>scaled_down_asgs\<close>, and the result has no error entry.
\<close>

theorem zero_capacity_group_skipped:
  assumes "process_region region c = (Inr result, c')"
    and "groups (regions c region) n = Some g" and "desired_capacity g = 0"
  shows "(\<forall>r mn mx d. UpdateAutoScalingGroup r n mn mx d \<notin> set (new_calls c c')) \<and>
         in_region n region \<notin> set (scaled_down_asgs result) \<and>
         errors result = []"
proof -
  have 1: "\<forall>r mn mx d. UpdateAutoScalingGroup r n mn mx d \<notin> set (new_calls c c')"
  proof (intro allI notI)
    fix r mn mx d
    assume "UpdateAutoScalingGroup r n mn mx d \<in> set (new_calls c c')"
    from process_region_update_calls[OF assms(1) this] assms(2,3) show False by auto
  qed
  have 2: "in_region n region \<notin> set (scaled_down_asgs result)"
  proof
    assume "in_region n region \<in> set (scaled_down_asgs result)"
    from process_region_scaled[OF assms(1) this] have "scaled_down c c' region n" by simp
    from scaled_down_facts[OF this] assms(2,3) show False by auto
  qed
  from 1 2 process_region_errors[OF assms(1)] show ?thesis by (intro conjI)
qed

theorem zero_capacity_group_skipped_witness:
  "fst (process_region ''us-east-1'' example_cloud)
     = Inr \<lparr>stopped_instances = [''i-1 (us-east-1)''],
            scaled_down_asgs = [''asg-a (us-east-1)''], errors = []\<rparr> \<and>
   groups (regions example_cloud ''us-east-1'') ''asg-b''
     = Some \<lparr>min_size = 0, max_size = 4, desired_capacity = 0\<rparr> \<and>
   UpdateAutoScalingGroup ''us-east-1'' ''asg-b'' 0 4 0
     \<notin> set (new_calls example_cloud (snd (process_region ''us-east-1'' example_cloud))) \<and>
   in_region ''asg-b'' ''us-east-1'' \<notin> set [''asg-a (us-east-1)'']"
proof -
  let ?run = "process_region ''us-east-1'' example_cloud"
  let ?result = "\<lparr>stopped_instances = [''i-1 (us-east-1)''],
            scaled_down_asgs = [''asg-a (us-east-1)''], errors = []\<rparr>"
  have r: "fst ?run = Inr ?result" by code_simp
  then have h: "?run = (Inr ?result, snd ?run)" by (simp add: prod_eq_iff)
  have a: "groups (regions example_cloud ''us-east-1'') ''asg-b''
     = Some \<lparr>min_size = 0, max_size = 4, desired_capacity = 0\<rparr>" by code_simp
  have z: "desired_capacity \<lparr>min_size = 0, max_size = 4, desired_capacity = 0\<rparr> = 0" by simp
  note t = zero_capacity_group_skipped[OF h a z]
  from t have t1: "UpdateAutoScalingGroup ''us-east-1'' ''asg-b'' 0 4 0
     \<notin> set (new_calls example_cloud (snd ?run))" by blast
  from t have t2: "in_region ''asg-b'' ''us-east-1'' \<notin> set [''asg-a (us-east-1)'']" by simp
  from r a t1 t2 show ?thesis by (intro conjI)
qed

section \<open>The protection checks\<close>

text \<open>
  C3: when the body of a protection check raises, \<open>is_instance_stop_protected\<close> and
  \<open>is_asg_protected\<close> return true. In a run of \<open>process_region\<close>, an instance whose
  check raises is in no stop call and not in \<open>stopped_instances\<close>, a group whose check
  raises is in no update call and not in \<open>scaled_down_asgs\<close>, and the result has no
  error entry.
\<close>

theorem failed_check_means_protected:
  "(fst (instance_protection_check ec2 i c) = Inl e \<longrightarrow>
      fst (is_instance_stop_protected ec2 i c) = Inr True) \<and>
   (fst (asg_protection_check autoscaling n c) = Inl e' \<longrightarrow>
      fst (is_asg_protected autoscaling n c) = Inr True) \<and>
   (process_region region c = (Inr result, c') \<longrightarrow>
      (fst (instance_protection_check (Client ''ec2'' region) i c) = Inl e \<longrightarrow>
         (\<forall>r ids. StopInstances r ids \<in> set (new_calls c c') \<longrightarrow> i \<notin> set ids) \<and>
         in_region i region \<notin> set (stopped_instances result)) \<and>
      (fst (asg_protection_check (Client ''autoscaling'' region) n c) = Inl e' \<longrightarrow>
         (\<forall>r mn mx d. UpdateAutoScalingGroup r n mn mx d \<notin> set (new_calls c c')) \<and>
         in_region n region \<notin> set (scaled_down_asgs result)) \<and>
      errors result = [])"
proof -
  have 1: "fst (instance_protection_check ec2 i c) = Inl e \<longrightarrow>
      fst (is_instance_stop_protected ec2 i c) = Inr True"
    by (simp add: is_instance_stop_protected_verdict instance_protection_check_raises)
  have 2: "fst (asg_protection_check autoscaling n c) = Inl e' \<longrightarrow>
      fst (is_asg_protected autoscaling n c) = Inr True"
    by (simp add: is_asg_protected_verdict asg_protection_check_raises)
  have 3: "process_region region c = (Inr result, c') \<longrightarrow>
      (fst (instance_protection_check (Client ''ec2'' region) i c) = Inl e \<longrightarrow>
         (\<forall>r ids. StopInstances r ids \<in> set (new_calls c c') \<longrightarrow> i \<notin> set ids) \<and>
         in_region i region \<notin> set (stopped_instances result)) \<and>
      (fst (asg_protection_check (Client ''autoscaling'' region) n c) = Inl e' \<longrightarrow>
         (\<forall>r mn mx d. UpdateAutoScalingGroup r n mn mx d \<notin> set (new_calls c c')) \<and>
         in_region n region \<notin> set (scaled_down_asgs result)) \<and>
      errors result = []"
  proof (intro impI conjI allI)
    fix r ids
    assume run: "process_region region c = (Inr result, c')"
      and chk: "fst (instance_protection_check (Client ''ec2'' region) i c) = Inl e"
      and m: "StopInstances r ids \<in> set (new_calls c c')"
    from instance_protection_check_raises[OF chk] have v: "instance_verdict c region i" by simp
    from process_region_stop_calls[OF run m] obtain j where "ids = [j]" "\<not> instance_verdict c region j"
      by blast
    with v show "i \<notin> set ids" by auto
  next
    assume run: "process_region region c = (Inr result, c')"
      and chk: "fst (instance_protection_check (Client ''ec2'' region) i c) = Inl e"
    from instance_protection_check_raises[OF chk] have v: "instance_verdict c region i" by simp
    show "in_region i region \<notin> set (stopped_instances result)"
    proof
      assume "in_region i region \<in> set (stopped_instances result)"
      from process_region_stopped[OF run this] v show False by simp
    qed
  next
    fix r mn mx d
    assume run: "process_region region c = (Inr result, c')"
      and chk: "fst (asg_protection_check (Client ''autoscaling'' region) n c) = Inl e'"
    from asg_protection_check_raises[OF chk] have v: "asg_verdict c region n" by simp
    show "UpdateAutoScalingGroup r n mn mx d \<notin> set (new_calls c c')"
    proof
      assume "UpdateAutoScalingGroup r n mn mx d \<in> set (new_calls c c')"
      from process_region_update_calls[OF run this] v show False by simp
    qed
  next
    assume run: "process_region region c = (Inr result, c')"
      and chk: "fst (asg_protection_check (Client ''autoscaling'' region) n c) = Inl e'"
    from asg_protection_check_raises[OF chk] have v: "asg_verdict c region n" by simp
    show "in_region n region \<notin> set (scaled_down_asgs result)"
    proof
      assume "in_region n region \<in> set (scaled_down_asgs result)"
      from process_region_scaled[OF run this] have "scaled_down c c' region n" by simp
      from scaled_down_facts[OF this] v show False by simp
    qed
  next
    assume run: "process_region region c = (Inr result, c')"
    from process_region_errors[OF this] show "errors result = []" .
  qed
  from 1 2 3 show ?thesis by (intro conjI)
qed

theorem failed_check_means_protected_witness:
  "fst (instance_protection_check (Client ''ec2'' ''us-east-1'') ''i-1'' failing_checks_cloud)
     = Inl ''RequestLimitExceeded'' \<and>
   fst (is_instance_stop_protected (Client ''ec2'' ''us-east-1'') ''i-1'' failing_checks_cloud)
     = Inr True \<and>
   fst (asg_protection_check (Client ''autoscaling'' ''us-east-1'') ''asg-a'' failing_checks_cloud)
     = Inl ''Throttling'' \<and>
   fst (is_asg_protected (Client ''autoscaling'' ''us-east-1'') ''asg-a'' failing_checks_cloud)
     = Inr True \<and>
   fst (process_region ''us-east-1'' failing_checks_cloud)
     = Inr \<lparr>stopped_instances = [], scaled_down_asgs = [], errors = []\<rparr> \<and>
   StopInstances ''us-east-1'' [''i-1'']
     \<notin> set (new_calls failing_checks_cloud (snd (process_region ''us-east-1'' failing_checks_cloud))) \<and>
   UpdateAutoScalingGroup ''us-east-1'' ''asg-a'' 0 5 0
     \<notin> set (new_calls failing_checks_cloud (snd (process_region ''us-east-1'' failing_checks_cloud)))"
proof -
  let ?c = failing_checks_cloud
  let ?ec2 = "Client ''ec2'' ''us-east-1''"
  let ?as = "Client ''autoscaling'' ''us-east-1''"
  let ?run = "process_region ''us-east-1'' ?c"
  let ?result = "\<lparr>stopped_instances = [], scaled_down_asgs = [], errors = []\<rparr>"
  have a: "fst (instance_protection_check ?ec2 ''i-1'' ?c) = Inl ''RequestLimitExceeded''"
    by code_simp
  have b: "fst (asg_protection_check ?as ''asg-a'' ?c) = Inl ''Throttling''"
    by code_simp
  have r: "fst ?run = Inr ?result" by code_simp
  then have h: "?run = (Inr ?result, snd ?run)" by (simp add: prod_eq_iff)
  note t = failed_check_means_protected[of ?ec2 "''i-1''" ?c "''RequestLimitExceeded''" ?as
      "''asg-a''" "''Throttling''" "''us-east-1''" ?result "snd ?run"]
  from t[THEN conjunct1, THEN mp, OF a]
  have p1: "fst (is_instance_stop_protected ?ec2 ''i-1'' ?c) = Inr True" .
  from t[THEN conjunct2, THEN conjunct1, THEN mp, OF b]
  have p2: "fst (is_asg_protected ?as ''asg-a'' ?c) = Inr True" .
  note t3 = t[THEN conjunct2, THEN conjunct2, THEN mp, OF h]
  from t3[THEN conjunct1, THEN mp, OF a, THEN conjunct1]
  have "\<forall>r ids. StopInstances r ids \<in> set (new_calls ?c (snd ?run)) \<longrightarrow> ''i-1'' \<notin> set ids" .
  then have n1: "StopInstances ''us-east-1'' [''i-1''] \<notin> set (new_calls ?c (snd ?run))"
    by fastforce
  from t3[THEN conjunct2, THEN conjunct1, THEN mp, OF b, THEN conjunct1]
  have n2: "UpdateAutoScalingGroup ''us-east-1'' ''asg-a'' 0 5 0 \<notin> set (new_calls ?c (snd ?run))"
    by blast
  from a p1 b p2 r n1 n2 show ?thesis by (intro conjI)
qed

section \<open>The driver and its regions\<close>

text \<open>
  C6: \<open>lambda_handler\<close> always returns a response, with status code 200. Every region
  of the list is attempted, in order (the construction of its EC2 client is the first
  call of \<open>process_region\<close>); the regions for which \<open>process_region\<close> raises are
  exactly those missing from \<open>regions_processed\<close>, and each of them contributes one
  error string, \<open>Error processing region r: e\<close>, to \<open>errors\<close>.
\<close>

theorem driver_isolates_region_failures:
  "\<exists>resp c'. lambda_handler c = (Inr resp, c') \<and> statusCode resp = 200 \<and>
     regions_processed (body resp) =
       filter (\<lambda>r. \<not> isl (fst (process_region r c))) (get_allowed_regions (environ c)) \<and>
     errors (body resp) =
       concat (map (\<lambda>r. case fst (process_region r c) of
                           Inl e \<Rightarrow> [region_error r e] | Inr region_results \<Rightarrow> [])
                   (get_allowed_regions (environ c))) \<and>
     List.map_filter ec2_client_region (new_calls c c') = get_allowed_regions (environ c)"
proof -
  obtain agg c' where
    loop: "for_each (get_allowed_regions (environ c)) handle_region (initial_aggregate, c) = (Inr (), (agg, c'))"
    and ret: "lambda_handler c = (Inr \<lparr>statusCode = 200, body = agg\<rparr>, c')"
    by (rule lambda_handler_returns)
  from regions_loop_processed[OF loop]
  have 1: "regions_processed agg =
       filter (\<lambda>r. \<not> isl (fst (process_region r c))) (get_allowed_regions (environ c))"
    by (simp add: initial_aggregate_def)
  from regions_loop_errors[OF loop]
  have 2: "errors agg = concat (map (\<lambda>r. case fst (process_region r c) of
                           Inl e \<Rightarrow> [region_error r e] | Inr region_results \<Rightarrow> [])
                   (get_allowed_regions (environ c)))"
    by (simp add: initial_aggregate_def)
  note 3 = regions_loop_client_calls[OF loop]
  from ret 1 2 3 show ?thesis by simp
qed

theorem driver_isolates_region_failures_witness:
  "fst (process_region ''eu-west-1'' three_regions_cloud) = Inl ''EndpointConnectionError'' \<and>
   fst (lambda_handler three_regions_cloud) =
     Inr \<lparr>statusCode = 200,
          body = \<lparr>stopped_instances = [''i-1 (ap-south-1)''],
                  scaled_down_asgs = [''asg-a (ap-south-1)''],
                  errors = [''Error processing region eu-west-1: EndpointConnectionError''],
                  regions_processed = [''us-east-1'', ''ap-south-1'']\<rparr>\<rparr> \<and>
   List.map_filter ec2_client_region
     (new_calls three_regions_cloud (snd (lambda_handler three_regions_cloud)))
     = [''us-east-1'', ''eu-west-1'', ''ap-south-1'']"
proof -
  let ?c = three_regions_cloud
  have a: "fst (process_region ''eu-west-1'' ?c) = Inl ''EndpointConnectionError''" by code_simp
  have b: "fst (lambda_handler ?c) =
     Inr \<lparr>statusCode = 200,
          body = \<lparr>stopped_instances = [''i-1 (ap-south-1)''],
                  scaled_down_asgs = [''asg-a (ap-south-1)''],
                  errors = [''Error processing region eu-west-1: EndpointConnectionError''],
                  regions_processed = [''us-east-1'', ''ap-south-1'']\<rparr>\<rparr>" by code_simp
  have g: "get_allowed_regions (environ ?c) = [''us-east-1'', ''eu-west-1'', ''ap-south-1'']"
    by code_simp
  from driver_isolates_region_failures[of ?c] obtain resp c' where
    r: "lambda_handler ?c = (Inr resp, c')"
    and m: "List.map_filter ec2_client_region (new_calls ?c c') = get_allowed_regions (environ ?c)"
    by blast
  from r have "c' = snd (lambda_handler ?c)" by simp
  with m g have c: "List.map_filter ec2_client_region (new_calls ?c (snd (lambda_handler ?c)))
     = [''us-east-1'', ''eu-west-1'', ''ap-south-1'']" by simp
  from a b c show ?thesis by (intro conjI)
qed

text \<open>
  C10: when \<open>ALLOWED_REGIONS\<close> lists entries separated by commas, the parsed list is
  the stripped entries without the empty ones, in order and with repetitions kept. So
  for a region named by \<open>N\<close> entries, the list has it \<open>N\<close> times,
  \<open>lambda_handler\<close> starts \<open>process_region\<close> for it \<open>N\<close> times (the regions
  attempted are the parsed list, in order), and if \<open>process_region\<close> does not raise
  for it, \<open>regions_processed\<close> has it \<open>N\<close> times.
\<close>

theorem repeated_region_processed_repeatedly:
  assumes "environ c ''ALLOWED_REGIONS'' = Some (comma_join entries)"
    and "\<forall>e\<in>set entries. CHR '','' \<notin> set e"
    and "r \<noteq> []"
  shows "get_allowed_regions (environ c) = filter (\<lambda>s. s \<noteq> []) (map strip entries) \<and>
         count_list (get_allowed_regions (environ c)) r = count_list (map strip entries) r \<and>
         (\<exists>resp c'. lambda_handler c = (Inr resp, c') \<and>
            List.map_filter ec2_client_region (new_calls c c') = get_allowed_regions (environ c) \<and>
            count_list (List.map_filter ec2_client_region (new_calls c c')) r
              = count_list (map strip entries) r \<and>
            (\<not> isl (fst (process_region r c)) \<longrightarrow>
               count_list (regions_processed (body resp)) r = count_list (map strip entries) r))"
proof -
  note parsed = get_allowed_regions_comma_join[of "environ c" entries, OF assms(1,2)]
  have cnt: "count_list (get_allowed_regions (environ c)) r = count_list (map strip entries) r"
    using assms(3) by (simp add: parsed count_list_filter)
  obtain agg c' where
    loop: "for_each (get_allowed_regions (environ c)) handle_region (initial_aggregate, c) = (Inr (), (agg, c'))"
    and ret: "lambda_handler c = (Inr \<lparr>statusCode = 200, body = agg\<rparr>, c')"
    by (rule lambda_handler_returns)
  note inv = regions_loop_client_calls[OF loop]
  from regions_loop_processed[OF loop]
  have proc: "regions_processed agg =
       filter (\<lambda>r. \<not> isl (fst (process_region r c))) (get_allowed_regions (environ c))"
    by (simp add: initial_aggregate_def)
  have "\<not> isl (fst (process_region r c)) \<longrightarrow>
          count_list (regions_processed agg) r = count_list (map strip entries) r"
    by (simp add: proc count_list_filter cnt)
  with ret inv cnt parsed show ?thesis by simp
qed

theorem repeated_region_processed_repeatedly_witness:
  "environ repeated_region_cloud ''ALLOWED_REGIONS''
     = Some (comma_join [''us-east-1'', '' eu-west-1 '', ''us-east-1'', '''', '''']) \<and>
   get_allowed_regions (environ repeated_region_cloud) = [''us-east-1'', ''eu-west-1'', ''us-east-1''] \<and>
   count_list (map strip [''us-east-1'', '' eu-west-1 '', ''us-east-1'', '''', '''']) ''us-east-1'' = 2 \<and>
   regions_processed (body (projr (fst (lambda_handler repeated_region_cloud))))
     = [''us-east-1'', ''eu-west-1'', ''us-east-1''] \<and>
   count_list (List.map_filter ec2_client_region
       (new_calls repeated_region_cloud (snd (lambda_handler repeated_region_cloud)))) ''us-east-1'' = 2"
proof -
  let ?c = repeated_region_cloud
  let ?entries = "[''us-east-1'', '' eu-west-1 '', ''us-east-1'', '''', '''']"
  have a: "environ ?c ''ALLOWED_REGIONS'' = Some (comma_join ?entries)" by code_simp
  have b: "\<forall>e\<in>set ?entries. CHR '','' \<notin> set e" by simp
  have n: "''us-east-1'' \<noteq> []" by simp
  have g: "get_allowed_regions (environ ?c) = [''us-east-1'', ''eu-west-1'', ''us-east-1'']"
    by code_simp
  have k: "count_list (map strip ?entries) ''us-east-1'' = 2" by code_simp
  have p: "regions_processed (body (projr (fst (lambda_handler ?c))))
     = [''us-east-1'', ''eu-west-1'', ''us-east-1'']" by code_simp
  from repeated_region_processed_repeatedly[OF a b n] obtain resp c' where
    r: "lambda_handler ?c = (Inr resp, c')"
    and m: "count_list (List.map_filter ec2_client_region (new_calls ?c c')) ''us-east-1''
              = count_list (map strip ?entries) ''us-east-1''"
    by blast
  from r have "c' = snd (lambda_handler ?c)" by simp
  with m k have q: "count_list (List.map_filter ec2_client_region
       (new_calls ?c (snd (lambda_handler ?c)))) ''us-east-1'' = 2" by simp
  from a g k p q show ?thesis by (intro conjI)
qed

section \<open>Two sweeps in a row\<close>

text \<open>
  C9, as stated, fails: a resource that the first run left alone because a call was
  refused is acted upon by the second run once the call is no longer refused, although
  no resource changed in between. Here the protection queries of instance \<open>i-1\<close> and
  of group \<open>asg-a\<close> are refused in the first run, which therefore stops and scales
  nothing and leaves both as they were; the second run, on the cloud the first one left
  and with no call refused, stops the instance and scales the group down.
\<close>

theorem second_sweep_acts_after_refusal:
  "fst (lambda_handler failing_checks_cloud) =
     Inr \<lparr>statusCode = 200,
          body = \<lparr>stopped_instances = [], scaled_down_asgs = [],
                  errors = [], regions_processed = [''us-east-1'']\<rparr>\<rparr> \<and>
   instances (regions (snd (lambda_handler failing_checks_cloud)) ''us-east-1'') ''i-1''
     = Some \<lparr>state_name = ''running'', instance_type = Some ''t3.micro''\<rparr> \<and>
   groups (regions (snd (lambda_handler failing_checks_cloud)) ''us-east-1'') ''asg-a''
     = Some \<lparr>min_size = 1, max_size = 5, desired_capacity = 3\<rparr> \<and>
   fst (lambda_handler ((snd (lambda_handler failing_checks_cloud))\<lparr>fault := Map.empty\<rparr>)) =
     Inr \<lparr>statusCode = 200,
          body = \<lparr>stopped_instances = [''i-1 (us-east-1)''],
                  scaled_down_asgs = [''asg-a (us-east-1)''],
                  errors = [], regions_processed = [''us-east-1'']\<rparr>\<rparr>"
proof -
  let ?c1 = "snd (lambda_handler failing_checks_cloud)"
  have a: "fst (lambda_handler failing_checks_cloud) =
     Inr \<lparr>statusCode = 200,
          body = \<lparr>stopped_instances = [], scaled_down_asgs = [],
                  errors = [], regions_processed = [''us-east-1'']\<rparr>\<rparr>" by code_simp
  have b: "instances (regions ?c1 ''us-east-1'') ''i-1''
     = Some \<lparr>state_name = ''running'', instance_type = Some ''t3.micro''\<rparr>" by code_simp
  have c: "groups (regions ?c1 ''us-east-1'') ''asg-a''
     = Some \<lparr>min_size = 1, max_size = 5, desired_capacity = 3\<rparr>" by code_simp
  have d: "fst (lambda_handler (?c1\<lparr>fault := Map.empty\<rparr>)) =
     Inr \<lparr>statusCode = 200,
          body = \<lparr>stopped_instances = [''i-1 (us-east-1)''],
                  scaled_down_asgs = [''asg-a (us-east-1)''],
                  errors = [], regions_processed = [''us-east-1'']\<rparr>\<rparr>" by code_simp
  from a b c d show ?thesis by (intro conjI)
qed

text \<open>
  C9, amended: when \<open>lambda_handler\<close> runs a second time on the cloud as the first run
  left it, and every call that the provider refused in the first run is refused in the
  second as well (in particular when no call was refused in the first run), the second
  run stops no instance and scales down no group.
\<close>

theorem second_sweep_empty_when_refusals_persist:
  assumes "lambda_handler c = (Inr resp1, c1)"
    and "\<forall>call. fault c call \<noteq> None \<longrightarrow> refused call \<noteq> None"
    and "lambda_handler (c1\<lparr>fault := refused\<rparr>) = (Inr resp2, c2)"
  shows "stopped_instances (body resp2) = [] \<and> scaled_down_asgs (body resp2) = []"
proof -
  let ?c1 = "c1\<lparr>fault := refused\<rparr>"
  obtain agg1 c1' where
    loop1: "for_each (get_allowed_regions (environ c)) handle_region (initial_aggregate, c) = (Inr (), (agg1, c1'))"
    and ret1: "lambda_handler c = (Inr \<lparr>statusCode = 200, body = agg1\<rparr>, c1')"
    by (rule lambda_handler_returns)
  from ret1 assms(1) have c1: "c1' = c1" by simp
  from regions_loop_evolves[OF loop1] c1 have e: "evolves c c1" by simp
  from assms(2) have more: "\<forall>call. fault c1 call \<noteq> None \<longrightarrow> refused call \<noteq> None"
    by (simp add: evolves_fault[OF e])
  have env: "environ ?c1 = environ c" by (simp add: evolves_environ[OF e])
  have settled: "\<forall>r\<in>set (get_allowed_regions (environ ?c1)). region_settled ?c1 r"
  proof
    fix r assume "r \<in> set (get_allowed_regions (environ ?c1))"
    then have "r \<in> set (get_allowed_regions (environ c))" by (simp only: env)
    from regions_loop_settles[OF loop1 this] c1 have "region_settled c1 r" by simp
    then show "region_settled ?c1 r" by (rule region_settled_more_refusals[OF more])
  qed
  obtain agg2 c2' where
    loop2: "for_each (get_allowed_regions (environ ?c1)) handle_region (initial_aggregate, ?c1) = (Inr (), (agg2, c2'))"
    and ret2: "lambda_handler ?c1 = (Inr \<lparr>statusCode = 200, body = agg2\<rparr>, c2')"
    by (rule lambda_handler_returns)
  from regions_loop_idle[OF loop2 settled]
  have "stopped_instances agg2 = [] \<and> scaled_down_asgs agg2 = []"
    by (simp add: initial_aggregate_def)
  with ret2 assms(3) show ?thesis by auto
qed

theorem second_sweep_empty_when_refusals_persist_witness:
  "fault stop_refused_cloud (StopInstances ''us-east-1'' [''i-1'']) = Some ''UnauthorizedOperation'' \<and>
   fst (lambda_handler stop_refused_cloud) =
     Inr \<lparr>statusCode = 200,
          body = \<lparr>stopped_instances = [],
                  scaled_down_asgs = [''asg-a (us-east-1)''],
                  errors = [], regions_processed = [''us-east-1'']\<rparr>\<rparr> \<and>
   fst (lambda_handler ((snd (lambda_handler stop_refused_cloud))\<lparr>fault := fault stop_refused_cloud\<rparr>)) =
     Inr \<lparr>statusCode = 200,
          body = \<lparr>stopped_instances = [], scaled_down_asgs = [],
                  errors = [], regions_processed = [''us-east-1'']\<rparr>\<rparr> \<and>
   stopped_instances (body (projr (fst (lambda_handler
       ((snd (lambda_handler stop_refused_cloud))\<lparr>fault := fault stop_refused_cloud\<rparr>))))) = [] \<and>
   scaled_down_asgs (body (projr (fst (lambda_handler
       ((snd (lambda_handler stop_refused_cloud))\<lparr>fault := fault stop_refused_cloud\<rparr>))))) = []"
proof -
  let ?r1 = "\<lparr>statusCode = 200,
          body = \<lparr>stopped_instances = [],
                  scaled_down_asgs = [''asg-a (us-east-1)''],
                  errors = [], regions_processed = [''us-east-1'']\<rparr>\<rparr>"
  let ?r2 = "\<lparr>statusCode = 200,
          body = \<lparr>stopped_instances = [], scaled_down_asgs = [],
                  errors = [], regions_processed = [''us-east-1'']\<rparr>\<rparr>"
  let ?c1 = "(snd (lambda_handler stop_refused_cloud))\<lparr>fault := fault stop_refused_cloud\<rparr>"
  have f: "fault stop_refused_cloud (StopInstances ''us-east-1'' [''i-1'']) = Some ''UnauthorizedOperation''"
    by code_simp
  have a: "fst (lambda_handler stop_refused_cloud) = Inr ?r1" by code_simp
  then have h1: "lambda_handler stop_refused_cloud = (Inr ?r1, snd (lambda_handler stop_refused_cloud))"
    by (simp add: prod_eq_iff)
  have same: "\<forall>call. fault stop_refused_cloud call \<noteq> None \<longrightarrow> fault stop_refused_cloud call \<noteq> None"
    by (intro allI impI)
  have b: "fst (lambda_handler ?c1) = Inr ?r2" by code_simp
  then have h2: "lambda_handler ?c1 = (Inr (projr (fst (lambda_handler ?c1))), snd (lambda_handler ?c1))"
    by (simp add: prod_eq_iff)
  note t = second_sweep_empty_when_refusals_persist[OF h1 same h2]
  from f a b t[THEN conjunct1] t[THEN conjunct2] show ?thesis by (intro conjI)
qed

section \<open>The protection policy as a whole\<close>

text \<open>
  C5, as stated, fails in the direction "only if": when a protection query is refused,
  the resource is judged protected although the provider reports no stop protection
  and no keep tag is attached. Here instance \<open>i-1\<close> and group \<open>asg-a\<close> carry no tag,
  \<open>disableApiStop\<close> is reported false, and both are judged protected.
\<close>

theorem refused_query_judged_protected:
  "fst (is_instance_stop_protected (Client ''ec2'' ''us-east-1'') ''i-1'' failing_checks_cloud)
     = Inr True \<and>
   \<not> reports_api_stop_disabled (api_stop (regions failing_checks_cloud ''us-east-1'') ''i-1'') \<and>
   \<not> has_keep_tag (instance_tags (regions failing_checks_cloud ''us-east-1'') ''i-1'') \<and>
   fst (is_asg_protected (Client ''autoscaling'' ''us-east-1'') ''asg-a'' failing_checks_cloud)
     = Inr True \<and>
   \<not> has_keep_tag (group_tags (regions failing_checks_cloud ''us-east-1'') ''asg-a'')"
proof -
  have a: "fst (is_instance_stop_protected (Client ''ec2'' ''us-east-1'') ''i-1'' failing_checks_cloud)
     = Inr True" by code_simp
  have b: "\<not> reports_api_stop_disabled (api_stop (regions failing_checks_cloud ''us-east-1'') ''i-1'')"
    by code_simp
  have c: "\<not> has_keep_tag (instance_tags (regions failing_checks_cloud ''us-east-1'') ''i-1'')"
    by code_simp
  have d: "fst (is_asg_protected (Client ''autoscaling'' ''us-east-1'') ''asg-a'' failing_checks_cloud)
     = Inr True" by code_simp
  have e: "\<not> has_keep_tag (group_tags (regions failing_checks_cloud ''us-east-1'') ''asg-a'')"
    by code_simp
  from a b c d e show ?thesis by (intro conjI)
qed

text \<open>
  C5, amended: an instance is judged protected if and only if its protection check
  raises, or the provider reports the attribute \<open>disableApiStop\<close> as true, or a
  \<open>ResourceGovernance\<close> tag whose value equals \<open>keep\<close> case-insensitively is attached.
  A group is judged protected if and only if its protection check raises or such a tag
  is attached; the only call made for a group is the query of its tags.
\<close>

theorem protection_verdicts:
  "fst (is_instance_stop_protected ec2 i c) =
     Inr (isl (fst (instance_protection_check ec2 i c)) \<or>
          reports_api_stop_disabled (api_stop (regions c (client_region ec2)) i) \<or>
          has_keep_tag (instance_tags (regions c (client_region ec2)) i)) \<and>
   fst (is_asg_protected autoscaling n c) =
     Inr (isl (fst (asg_protection_check autoscaling n c)) \<or>
          has_keep_tag (group_tags (regions c (client_region autoscaling)) n)) \<and>
   new_calls c (snd (is_asg_protected autoscaling n c)) =
     [DescribeTagsAutoScaling (client_region autoscaling) n ''ResourceGovernance'']"
proof -
  have 1: "fst (is_instance_stop_protected ec2 i c) =
     Inr (isl (fst (instance_protection_check ec2 i c)) \<or>
          reports_api_stop_disabled (api_stop (regions c (client_region ec2)) i) \<or>
          has_keep_tag (instance_tags (regions c (client_region ec2)) i))"
    unfolding is_instance_stop_protected_verdict instance_protection_check_isl instance_verdict_def
      keep_tag_filter disable_api_stop_value_iff
    by blast
  have 2: "fst (is_asg_protected autoscaling n c) =
     Inr (isl (fst (asg_protection_check autoscaling n c)) \<or>
          has_keep_tag (group_tags (regions c (client_region autoscaling)) n))"
    unfolding is_asg_protected_verdict asg_protection_check_isl asg_verdict_def keep_tag_filter
    by blast
  have 3: "new_calls c (snd (is_asg_protected autoscaling n c)) =
     [DescribeTagsAutoScaling (client_region autoscaling) n ''ResourceGovernance'']"
    by (cases autoscaling) (simp add: is_asg_protected_eq)
  from 1 2 3 show ?thesis by (intro conjI)
qed

theorem protection_verdicts_witness:
  "has_keep_tag (instance_tags (regions example_cloud ''us-east-1'') ''i-2'') \<and>
   fst (is_instance_stop_protected (Client ''ec2'' ''us-east-1'') ''i-2'' example_cloud) = Inr True \<and>
   \<not> isl (fst (asg_protection_check (Client ''autoscaling'' ''us-east-1'') ''asg-a'' example_cloud)) \<and>
   \<not> has_keep_tag (group_tags (regions example_cloud ''us-east-1'') ''asg-a'') \<and>
   fst (is_asg_protected (Client ''autoscaling'' ''us-east-1'') ''asg-a'' example_cloud) = Inr False \<and>
   fst (is_instance_stop_protected (Client ''ec2'' ''us-east-1'') ''i-1'' example_cloud) = Inr False \<and>
   fst (is_asg_protected (Client ''autoscaling'' ''us-east-1'') ''asg-c'' example_cloud) = Inr True"
proof -
  let ?ec2 = "Client ''ec2'' ''us-east-1''"
  let ?as = "Client ''autoscaling'' ''us-east-1''"
  have cr: "client_region ?ec2 = ''us-east-1''" "client_region ?as = ''us-east-1''" by simp_all
  note t = protection_verdicts[of ?ec2 "''i-2''" example_cloud ?as "''asg-a''", unfolded cr]
  have k: "has_keep_tag (instance_tags (regions example_cloud ''us-east-1'') ''i-2'')" by code_simp
  from t[THEN conjunct1] k
  have p: "fst (is_instance_stop_protected ?ec2 ''i-2'' example_cloud) = Inr True" by simp
  have r: "\<not> isl (fst (asg_protection_check ?as ''asg-a'' example_cloud))" by code_simp
  have g: "\<not> has_keep_tag (group_tags (regions example_cloud ''us-east-1'') ''asg-a'')" by code_simp
  from t[THEN conjunct2, THEN conjunct1] r g
  have q: "fst (is_asg_protected ?as ''asg-a'' example_cloud) = Inr False" by simp
  have u: "fst (is_instance_stop_protected ?ec2 ''i-1'' example_cloud) = Inr False" by code_simp
  have v: "fst (is_asg_protected ?as ''asg-c'' example_cloud) = Inr True" by code_simp
  from k p r g q u v show ?thesis by (intro conjI)
qed

section \<open>Failures of the sweepers and the error list\<close>

text \<open>
  C1 does not hold of the code: a failure inside a sweeper is printed and not appended
  to any list. A refused stop of the running, unprotected instance \<open>i-1\<close>, a refused
  update of the unprotected group \<open>asg-a\<close> at capacity 3, and refused listings of the
  instances and of the first page of groups all leave \<open>errors\<close> empty, in the result of
  \<open>process_region\<close> and in the response of \<open>lambda_handler\<close>. The sibling resources are
  still processed: the group is scaled down after the refused stop, and the instance is
  stopped before the refused update.
\<close>

theorem sweeper_failures_leave_errors_empty:
  "StopInstances ''us-east-1'' [''i-1''] \<in> set (calls (snd (process_region ''us-east-1'' stop_refused_cloud))) \<and>
   fst (process_region ''us-east-1'' stop_refused_cloud)
     = Inr \<lparr>stopped_instances = [], scaled_down_asgs = [''asg-a (us-east-1)''], errors = []\<rparr> \<and>
   UpdateAutoScalingGroup ''us-east-1'' ''asg-a'' 0 5 0
     \<in> set (calls (snd (process_region ''us-east-1'' update_refused_cloud))) \<and>
   fst (process_region ''us-east-1'' update_refused_cloud)
     = Inr \<lparr>stopped_instances = [''i-1 (us-east-1)''], scaled_down_asgs = [], errors = []\<rparr> \<and>
   fst (process_region ''us-east-1'' failing_sweeps_cloud)
     = Inr \<lparr>stopped_instances = [], scaled_down_asgs = [], errors = []\<rparr> \<and>
   fst (lambda_handler stop_refused_cloud)
     = Inr \<lparr>statusCode = 200,
            body = \<lparr>stopped_instances = [], scaled_down_asgs = [''asg-a (us-east-1)''],
                    errors = [], regions_processed = [''us-east-1'']\<rparr>\<rparr>"
proof -
  have a: "StopInstances ''us-east-1'' [''i-1'']
      \<in> set (calls (snd (process_region ''us-east-1'' stop_refused_cloud)))" by code_simp
  have b: "fst (process_region ''us-east-1'' stop_refused_cloud)
     = Inr \<lparr>stopped_instances = [], scaled_down_asgs = [''asg-a (us-east-1)''], errors = []\<rparr>"
    by code_simp
  have c: "UpdateAutoScalingGroup ''us-east-1'' ''asg-a'' 0 5 0
     \<in> set (calls (snd (process_region ''us-east-1'' update_refused_cloud)))" by code_simp
  have d: "fst (process_region ''us-east-1'' update_refused_cloud)
     = Inr \<lparr>stopped_instances = [''i-1 (us-east-1)''], scaled_down_asgs = [], errors = []\<rparr>"
    by code_simp
  have e: "fst (process_region ''us-east-1'' failing_sweeps_cloud)
     = Inr \<lparr>stopped_instances = [], scaled_down_asgs = [], errors = []\<rparr>" by code_simp
  have f: "fst (lambda_handler stop_refused_cloud)
     = Inr \<lparr>statusCode = 200,
            body = \<lparr>stopped_instances = [], scaled_down_asgs = [''asg-a (us-east-1)''],
                    errors = [], regions_processed = [''us-east-1'']\<rparr>\<rparr>" by code_simp
  from a b c d e f show ?thesis by (intro conjI)
qed

end
